theory Spec2Isabelle
  imports Main "HOL-Library.Word" "HOL-Library.AList"
begin

section \<open>Values exchanged with the EA\<close>

text \<open>
  The bridge (\<^verbatim>\<open>server/bridge.py\<close>) is an asyncio program: coroutines run on one event
  loop and give up control only at an \<^verbatim>\<open>await\<close>. The model below cuts every coroutine
  of \<^verbatim>\<open>MT5Bridge\<close> at its \<^verbatim>\<open>await\<close>s into blocks that run atomically, keeps the
  fields of the object in a record, and lets a step function interleave the blocks in any
  order the event loop could choose. Everything the code obtains from outside (the
  clock, \<^verbatim>\<open>uuid.uuid4\<close>, the \<^verbatim>\<open>json\<close> module, the sockets) is supplied by the event
  that runs the block.

  Bytes are 8-bit words. A Python \<^verbatim>\<open>float\<close> is a finite binary fraction, kept as
  mantissa and exponent; the code only stores floats and tests them for zero. A Python
  \<^verbatim>\<open>str\<close> is a \<open>string\<close>; the code only compares strings.
\<close>

type_synonym byte = "8 word"

datatype pyfloat = PyFloat (mantissa: int) (exponent: int)

datatype json =
    JNull
  | JBool bool
  | JInt int
  | JFloat pyfloat
  | JStr string
  | JArr "json list"
  | JObj "(string \<times> json) list"

text \<open>Truth value of a decoded JSON value, as Python's \<^verbatim>\<open>if x:\<close> tests it.\<close>

fun truthy :: "json \<Rightarrow> bool" where
  "truthy JNull = False"
| "truthy (JBool b) = b"
| "truthy (JInt i) = (i \<noteq> 0)"
| "truthy (JFloat x) = (mantissa x \<noteq> 0)"
| "truthy (JStr s) = (s \<noteq> [])"
| "truthy (JArr xs) = (xs \<noteq> [])"
| "truthy (JObj kvs) = (kvs \<noteq> [])"

text \<open>\<^verbatim>\<open>d.get(key)\<close> and \<^verbatim>\<open>d.get(key, default)\<close> on a dict.\<close>

definition dict_get_default :: "(string \<times> json) list \<Rightarrow> string \<Rightarrow> json \<Rightarrow> json" where
  "dict_get_default kvs k d = (case map_of kvs k of Some v \<Rightarrow> v | None \<Rightarrow> d)"

definition dict_get :: "(string \<times> json) list \<Rightarrow> string \<Rightarrow> json" where
  "dict_get kvs k = dict_get_default kvs k JNull"

text \<open>The \<^verbatim>\<open>id\<close> of a decoded message (\<^verbatim>\<open>None\<close> when it has none).\<close>

definition msg_id :: "json \<Rightarrow> json" where
  "msg_id msg = (case msg of JObj kvs \<Rightarrow> dict_get kvs ''id'' | _ \<Rightarrow> JNull)"

text \<open>
  The exceptions the code raises, catches or lets through. \<open>AsyncioTimeoutError\<close> is
  what \<^verbatim>\<open>asyncio.wait_for\<close> raises; \<open>TimeoutError command timeout\<close> is
  \<^verbatim>\<open>TimeoutError(f"Command '{command}' timed out after {timeout}s")\<close>. Both are instances
  of \<^verbatim>\<open>TimeoutError\<close> (Python 3.11 made \<^verbatim>\<open>asyncio.TimeoutError\<close> an alias of it).
  \<open>CancelledError\<close> derives from \<^verbatim>\<open>BaseException\<close>, every other one from
  \<^verbatim>\<open>Exception\<close>; \<open>OtherException\<close> carries the class name. The classes Python derives
  from \<^verbatim>\<open>ConnectionError\<close> (what a socket raises in \<^verbatim>\<open>drain()\<close>) are known by their
  names: \<^verbatim>\<open>except ConnectionError\<close> catches them too. So is a \<^verbatim>\<open>TimeoutError\<close> that
  comes from the socket.
\<close>

datatype exc =
    ConnectionError string
  | TimeoutError string pyfloat
  | AsyncioTimeoutError
  | CancelledError
  | IncompleteReadError
  | OtherException string

fun is_Exception :: "exc \<Rightarrow> bool" where
  "is_Exception CancelledError = False"
| "is_Exception _ = True"

fun is_ConnectionError :: "exc \<Rightarrow> bool" where
  "is_ConnectionError (ConnectionError m) = True"
| "is_ConnectionError (OtherException n) =
     (n \<in> set [''ConnectionError'', ''BrokenPipeError'', ''ConnectionAbortedError'',
               ''ConnectionRefusedError'', ''ConnectionResetError''])"
| "is_ConnectionError _ = False"

fun is_TimeoutError :: "exc \<Rightarrow> bool" where
  "is_TimeoutError (TimeoutError c t) = True"
| "is_TimeoutError AsyncioTimeoutError = True"
| "is_TimeoutError (OtherException n) = (n \<in> set [''TimeoutError'', ''socket.timeout''])"
| "is_TimeoutError _ = False"

section \<open>Framing\<close>

text \<open>
  \<^verbatim>\<open>struct.pack(">I", n)\<close>: four bytes, most significant first; \<^verbatim>\<open>struct.error\<close>
  (here \<open>None\<close>) when \<open>n\<close> does not fit 32 bits. \<^verbatim>\<open>struct.unpack(">I", b)[0]\<close> reads
  them back and raises unless \<open>b\<close> has four bytes.
\<close>

definition struct_pack_I :: "nat \<Rightarrow> byte list option" where
  "struct_pack_I n =
     (if n < 4294967296
      then Some [of_nat (n div 16777216), of_nat (n div 65536), of_nat (n div 256), of_nat n]
      else None)"

definition struct_unpack_I :: "byte list \<Rightarrow> nat option" where
  "struct_unpack_I bs =
     (case bs of
        [b0, b1, b2, b3] \<Rightarrow>
          Some (unat b0 * 16777216 + unat b1 * 65536 + unat b2 * 256 + unat b3)
      | _ \<Rightarrow> None)"

text \<open>
  The request \<^verbatim>\<open>send_command\<close> builds (lines 142 to 144): \<^verbatim>\<open>params\<close> is added only
  when it is a non-empty dict.
\<close>

definition request_message ::
  "string \<Rightarrow> string \<Rightarrow> (string \<times> json) list option \<Rightarrow> json" where
  "request_message req_id command params =
     JObj ([(''id'', JStr req_id), (''command'', JStr command)] @
           (case params of
              Some ps \<Rightarrow> if ps \<noteq> [] then [(''params'', JObj ps)] else []
            | None \<Rightarrow> []))"

text \<open>
  What \<^verbatim>\<open>send_command\<close> writes for a message (lines 153, 154 and 157). \<open>dumps\<close>
  stands for \<^verbatim>\<open>json.dumps(message).encode("utf-8")\<close>, which returns the body or raises.
\<close>

definition send_command_frame ::
  "(json \<Rightarrow> exc + byte list) \<Rightarrow> json \<Rightarrow> exc + byte list" where
  "send_command_frame dumps message =
     (case dumps message of
        Inl e \<Rightarrow> Inl e
      | Inr payload \<Rightarrow>
          (case struct_pack_I (length payload) of
             None \<Rightarrow> Inl (OtherException ''struct.error'')
           | Some header \<Rightarrow> Inr (header @ payload)))"

text \<open>
  What one turn of \<^verbatim>\<open>_read_loop\<close> reads (lines 98 to 107) from a reader whose stream
  holds the bytes \<open>inp\<close> and then ends. \<open>loads\<close> stands for
  \<^verbatim>\<open>json.loads(data.decode("utf-8"))\<close>. \<^verbatim>\<open>readexactly(n)\<close> raises
  \<^verbatim>\<open>IncompleteReadError\<close> when the stream ends before \<open>n\<close> bytes. The results carry the
  bytes left unread.
\<close>

datatype frame_read =
    Frame json "byte list"
  | TooLarge nat "byte list"
  | Incomplete
  | Malformed exc

definition read_loop_frame ::
  "(byte list \<Rightarrow> exc + json) \<Rightarrow> byte list \<Rightarrow> frame_read" where
  "read_loop_frame loads inp =
     (if length inp < 4 then Incomplete
      else
        (case struct_unpack_I (take 4 inp) of
           None \<Rightarrow> Malformed (OtherException ''struct.error'')
         | Some msg_len \<Rightarrow>
             if msg_len > 1000000 then TooLarge msg_len (drop 4 inp)
             else if length (drop 4 inp) < msg_len then Incomplete
             else
               (case loads (take msg_len (drop 4 inp)) of
                  Inl e \<Rightarrow> Malformed e
                | Inr msg \<Rightarrow> Frame msg (drop msg_len (drop 4 inp)))))"

section \<open>The bridge object and the event loop\<close>

text \<open>
  Connections, futures and read-loop Tasks are numbered in the order they are created.
  A connection stands for the \<^verbatim>\<open>StreamReader\<close> and \<^verbatim>\<open>StreamWriter\<close> pair the server
  hands to \<^verbatim>\<open>_handle_connection\<close>.
\<close>

type_synonym conn = nat
type_synonym fut = nat

datatype fstate = FPending | FResult json | FException exc | FCancelled

text \<open>
  Where a \<^verbatim>\<open>_read_loop\<close> Task stands: created but not yet run, suspended in
  \<^verbatim>\<open>readexactly(HEADER_SIZE)\<close> or in \<^verbatim>\<open>readexactly(msg_len)\<close> on the reader that
  \<^verbatim>\<open>self._reader\<close> named when the call was made, or finished. The flag beside it says
  that \<^verbatim>\<open>cancel()\<close> was called and \<^verbatim>\<open>CancelledError\<close> has not been delivered yet.
\<close>

datatype tstate = TCreated | TReadHeader conn | TReadBody conn nat | TDone

datatype outcome = Returned json | ReturnedNone | Raised exc

text \<open>The local variables of one \<^verbatim>\<open>send_command\<close> call.\<close>

datatype locals = Locals (req_id: string) (fut_of: fut) (command_of: string) (timeout_of: pyfloat)

text \<open>
  Where a \<^verbatim>\<open>send_command\<close> call stands: about to enter \<^verbatim>\<open>async with self._lock\<close> with
  the frame built, suspended in \<^verbatim>\<open>asyncio.wait_for\<close>, timed out there (\<^verbatim>\<open>wait_for\<close> has
  cancelled the future, the call has not run again yet), or finished.
\<close>

datatype phase = AtWrite "byte list" | AtWait | TimedOut | Ended outcome

text \<open>
  The other coroutines in flight: \<^verbatim>\<open>_handle_connection\<close> suspended in
  \<^verbatim>\<open>await self._writer.wait_closed()\<close> (holding its own connection), \<^verbatim>\<open>stop\<close> suspended
  in one of its two \<^verbatim>\<open>wait_closed()\<close> calls, a \<^verbatim>\<open>send_command\<close> call, or a coroutine
  that has finished.
\<close>

datatype act =
    HandleWait conn
  | StopWaitWriter
  | StopWaitServer
  | Send locals phase
  | Finished outcome

text \<open>
  The fields of \<^verbatim>\<open>MT5Bridge\<close> (\<^verbatim>\<open>host\<close> and \<^verbatim>\<open>port\<close> never change and are left out;
  \<^verbatim>\<open>_lock\<close> only brackets the write, which is one block here), then the objects of the
  event loop: the futures, the read-loop Tasks, the coroutines in flight, the listening
  servers, the writers on which \<^verbatim>\<open>close()\<close> was called, the number of connections
  accepted so far, and what was written to which writer.
\<close>

record bridge =
  server :: "nat option"
  reader :: "conn option"
  writer :: "conn option"
  pending :: "(string \<times> fut) list"
  connected :: bool
  last_seen :: "pyfloat option"
  read_task :: "nat option"
  futs :: "fstate list"
  tasks :: "(tstate \<times> bool) list"
  acts :: "act list"
  listening :: "nat list"
  closed_writers :: "conn list"
  nconns :: nat
  sent :: "(conn \<times> byte list) list"

definition init :: bridge where
  "init = \<lparr>server = None, reader = None, writer = None, pending = [], connected = False,
            last_seen = None, read_task = None, futs = [], tasks = [], acts = [],
            listening = [], closed_writers = [], nconns = 0, sent = []\<rparr>"

text \<open>
  \<^verbatim>\<open>if not fut.done(): fut.set_result(...)\<close>, and the same with \<^verbatim>\<open>set_exception\<close>;
  also \<^verbatim>\<open>fut.cancel()\<close>, which leaves a finished future alone.
\<close>

definition resolve :: "fut \<Rightarrow> fstate \<Rightarrow> fstate list \<Rightarrow> fstate list" where
  "resolve f v fs = (if f < length fs \<and> fs ! f = FPending then fs[f := v] else fs)"

text \<open>
  The loop over \<^verbatim>\<open>self._pending.values()\<close> followed by \<^verbatim>\<open>self._pending.clear()\<close>, as
  \<^verbatim>\<open>stop\<close> (lines 62 to 65) and the \<^verbatim>\<open>finally\<close> of \<^verbatim>\<open>_read_loop\<close> (lines 129 to 132)
  both have it.
\<close>

definition fail_pending :: "string \<Rightarrow> bridge \<Rightarrow> bridge" where
  "fail_pending msg s =
     s\<lparr>futs := fold (\<lambda>f. resolve f (FException (ConnectionError msg)))
                    (map snd (pending s)) (futs s),
       pending := []\<rparr>"

text \<open>
  \<^verbatim>\<open>if self._read_task and not self._read_task.done(): self._read_task.cancel()\<close>
\<close>

definition cancel_read_task :: "bridge \<Rightarrow> bridge" where
  "cancel_read_task s =
     (case read_task s of
        None \<Rightarrow> s
      | Some t \<Rightarrow>
          if t < length (tasks s) \<and> fst (tasks s ! t) \<noteq> TDone
          then s\<lparr>tasks := (tasks s)[t := (fst (tasks s ! t), True)]\<rparr>
          else s)"

subsection \<open>start\<close>

text \<open>
  \<^verbatim>\<open>start\<close> (lines 40 to 45) awaits \<^verbatim>\<open>asyncio.start_server\<close>, which raises
  (\<^verbatim>\<open>OSError\<close> when the address cannot be bound) or returns a new listening server,
  and stores the server. Nothing is tested before the call.
\<close>

definition start :: "exc + nat \<Rightarrow> bridge \<Rightarrow> bridge \<times> outcome" where
  "start bound s =
     (case bound of
        Inl e \<Rightarrow> (s, Raised e)
      | Inr srv \<Rightarrow> (s\<lparr>server := Some srv, listening := srv # listening s\<rparr>, ReturnedNone))"

subsection \<open>_handle_connection\<close>

text \<open>Lines 85 to 91, for the connection \<open>c\<close> at clock reading \<open>now\<close>.\<close>

definition handle_connection_finish :: "conn \<Rightarrow> pyfloat \<Rightarrow> bridge \<Rightarrow> bridge" where
  "handle_connection_finish c now s =
     s\<lparr>reader := Some c, writer := Some c, connected := True, last_seen := Some now,
       read_task := Some (length (tasks s)), tasks := tasks s @ [(TCreated, False)]\<rparr>"

text \<open>
  Lines 71 to 83: with a previous writer the coroutine cancels the read Task, closes
  that writer and suspends in \<^verbatim>\<open>wait_closed()\<close>; without one it runs on to the end.
\<close>

definition handle_connection :: "conn \<Rightarrow> pyfloat \<Rightarrow> bridge \<Rightarrow> bridge \<times> act" where
  "handle_connection c now s =
     (case writer s of
        Some w \<Rightarrow>
          (let s1 = cancel_read_task s
           in (s1\<lparr>closed_writers := w # closed_writers s1\<rparr>, HandleWait c))
      | None \<Rightarrow> (handle_connection_finish c now s, Finished ReturnedNone))"

subsection \<open>_read_loop\<close>

text \<open>The \<^verbatim>\<open>finally\<close> block (lines 126 to 132); the Task is finished after it.\<close>

definition read_loop_finally :: "nat \<Rightarrow> bridge \<Rightarrow> bridge" where
  "read_loop_finally t s =
     (let s1 = fail_pending ''EA disconnected'' (s\<lparr>connected := False\<rparr>)
      in s1\<lparr>tasks := (tasks s1)[t := (TDone, False)]\<rparr>)"

text \<open>
  Line 98: the loop calls \<^verbatim>\<open>self._reader.readexactly(HEADER_SIZE)\<close> on the reader the
  field names now (\<^verbatim>\<open>AttributeError\<close> on \<^verbatim>\<open>None\<close>, caught at line 124).
\<close>

definition read_loop_next :: "nat \<Rightarrow> bridge \<Rightarrow> bridge" where
  "read_loop_next t s =
     (case reader s of
        Some r \<Rightarrow> s\<lparr>tasks := (tasks s)[t := (TReadHeader r, False)]\<rparr>
      | None \<Rightarrow> read_loop_finally t s)"

text \<open>
  The first run of the Task. A Task cancelled before it ever ran receives
  \<^verbatim>\<open>CancelledError\<close> before its first statement, outside the \<^verbatim>\<open>try\<close>: no line of
  \<^verbatim>\<open>_read_loop\<close> runs.
\<close>

definition read_loop_begin :: "nat \<Rightarrow> bridge \<Rightarrow> bridge" where
  "read_loop_begin t s =
     (if snd (tasks s ! t) then s\<lparr>tasks := (tasks s)[t := (TDone, False)]\<rparr>
      else read_loop_next t s)"

text \<open>
  Lines 99 to 106, run when the four header bytes have arrived: a length above
  1000000 leaves the loop by \<^verbatim>\<open>break\<close>, any other one calls
  \<^verbatim>\<open>self._reader.readexactly(msg_len)\<close>.
\<close>

definition read_loop_header :: "nat \<Rightarrow> byte list \<Rightarrow> bridge \<Rightarrow> bridge" where
  "read_loop_header t header s =
     (case struct_unpack_I header of
        None \<Rightarrow> read_loop_finally t s
      | Some msg_len \<Rightarrow>
          if msg_len > 1000000 then read_loop_finally t s
          else
            (case reader s of
               Some r \<Rightarrow> s\<lparr>tasks := (tasks s)[t := (TReadBody r msg_len, False)]\<rparr>
             | None \<Rightarrow> read_loop_finally t s))"

text \<open>
  Lines 112 to 118. \<open>None\<close> stands for an exception: \<^verbatim>\<open>msg.get\<close> fails on a message
  that is no dict, and \<^verbatim>\<open>req_id in self._pending\<close> fails on a list or dict, which
  cannot be hashed. The table's keys are strings, so no other value is found in it.
\<close>

definition read_loop_route :: "json \<Rightarrow> bridge \<Rightarrow> bridge option" where
  "read_loop_route msg s =
     (case msg of
        JObj kvs \<Rightarrow>
          (let rid = dict_get kvs ''id'' in
           if truthy rid then
             (case rid of
                JStr k \<Rightarrow>
                  (case map_of (pending s) k of
                     Some f \<Rightarrow>
                       Some (s\<lparr>pending := AList.delete k (pending s),
                               futs := resolve f (FResult msg) (futs s)\<rparr>)
                   | None \<Rightarrow> Some s)
              | JArr xs \<Rightarrow> None
              | JObj ys \<Rightarrow> None
              | _ \<Rightarrow> Some s)
           else Some s)
      | _ \<Rightarrow> None)"

text \<open>
  Lines 107 to 118 and back to line 98, run when the body bytes \<open>data\<close> have arrived.
\<close>

definition read_loop_body ::
  "(byte list \<Rightarrow> exc + json) \<Rightarrow> nat \<Rightarrow> byte list \<Rightarrow> pyfloat \<Rightarrow> bridge \<Rightarrow> bridge" where
  "read_loop_body loads t data now s =
     (case loads data of
        Inl e \<Rightarrow> read_loop_finally t s
      | Inr msg \<Rightarrow>
          (case read_loop_route msg (s\<lparr>last_seen := Some now\<rparr>) of
             None \<Rightarrow> read_loop_finally t (s\<lparr>last_seen := Some now\<rparr>)
           | Some s1 \<Rightarrow> read_loop_next t s1))"

subsection \<open>stop\<close>

text \<open>Lines 60 to 65.\<close>

definition stop_finish :: "bridge \<Rightarrow> bridge" where
  "stop_finish s = fail_pending ''Bridge shutting down'' (s\<lparr>connected := False\<rparr>)"

text \<open>Lines 57 to 59, then the rest when there is no server to wait for.\<close>

definition stop_server :: "bridge \<Rightarrow> bridge \<times> act" where
  "stop_server s =
     (case server s of
        Some srv \<Rightarrow> (s\<lparr>listening := removeAll srv (listening s)\<rparr>, StopWaitServer)
      | None \<Rightarrow> (stop_finish s, Finished ReturnedNone))"

text \<open>Lines 49 to 56, then the rest when there is no writer to wait for.\<close>

definition stop :: "bridge \<Rightarrow> bridge \<times> act" where
  "stop s =
     (let s1 = cancel_read_task s
      in case writer s1 of
           Some w \<Rightarrow> (s1\<lparr>closed_writers := w # closed_writers s1\<rparr>, StopWaitWriter)
         | None \<Rightarrow> stop_server s1)"

subsection \<open>send_command\<close>

text \<open>
  The two handlers (lines 163 to 168) for an exception \<open>e\<close> raised inside the
  \<^verbatim>\<open>try\<close>. \<^verbatim>\<open>except Exception\<close> does not catch \<^verbatim>\<open>CancelledError\<close>, which passes
  through both.
\<close>

definition send_command_except :: "locals \<Rightarrow> exc \<Rightarrow> bridge \<Rightarrow> bridge \<times> act" where
  "send_command_except l e s =
     (if is_TimeoutError e
      then (s\<lparr>pending := AList.delete (req_id l) (pending s)\<rparr>,
            Send l (Ended (Raised (TimeoutError (command_of l) (timeout_of l)))))
      else if is_Exception e
      then (s\<lparr>pending := AList.delete (req_id l) (pending s)\<rparr>, Send l (Ended (Raised e)))
      else (s, Send l (Ended (Raised e))))"

text \<open>
  Lines 138 to 154, up to \<^verbatim>\<open>async with self._lock\<close>. \<open>uuid4\<close> is the value of
  \<^verbatim>\<open>str(uuid.uuid4())\<close>; the new future is the next one of the loop.
\<close>

definition send_command ::
  "(json \<Rightarrow> exc + byte list) \<Rightarrow> string \<Rightarrow> string \<Rightarrow> (string \<times> json) list option \<Rightarrow>
   pyfloat \<Rightarrow> bridge \<Rightarrow> bridge \<times> act" where
  "send_command dumps uuid4 command params timeout s =
     (if \<not> connected s \<or> writer s = None
      then (s, Finished (Raised (ConnectionError ''EA not connected'')))
      else
        (let l = Locals uuid4 (length (futs s)) command timeout;
             s1 = s\<lparr>futs := futs s @ [FPending],
                    pending := AList.update uuid4 (length (futs s)) (pending s)\<rparr>
         in case send_command_frame dumps (request_message uuid4 command params) of
              Inl e \<Rightarrow> send_command_except l e s1
            | Inr data \<Rightarrow> (s1, Send l (AtWrite data))))"

text \<open>
  Lines 156 to 158: the frame goes to the writer the field names now; \<open>drained\<close> is
  the exception \<^verbatim>\<open>drain()\<close> raises, if any.
\<close>

definition send_command_write ::
  "locals \<Rightarrow> byte list \<Rightarrow> exc option \<Rightarrow> bridge \<Rightarrow> bridge \<times> act" where
  "send_command_write l data drained s =
     (case writer s of
        None \<Rightarrow> send_command_except l (OtherException ''AttributeError'') s
      | Some w \<Rightarrow>
          (let s1 = s\<lparr>sent := sent s @ [(w, data)]\<rparr>
           in case drained of
                Some e \<Rightarrow> send_command_except l e s1
              | None \<Rightarrow> (s1, Send l AtWait)))"

text \<open>
  The timeout of \<^verbatim>\<open>asyncio.wait_for\<close> (line 161) runs out while the future is
  unresolved: \<^verbatim>\<open>wait_for\<close> cancels the future; the call itself runs again later.
\<close>

definition send_command_timeout :: "locals \<Rightarrow> bridge \<Rightarrow> bridge \<times> act" where
  "send_command_timeout l s =
     (s\<lparr>futs := resolve (fut_of l) FCancelled (futs s)\<rparr>, Send l TimedOut)"

text \<open>
  The caller's own Task is cancelled while the call is suspended: before the write
  nothing else happens, in \<^verbatim>\<open>wait_for\<close> the future is cancelled with it.
\<close>

definition send_command_cancel :: "locals \<Rightarrow> phase \<Rightarrow> bridge \<Rightarrow> (bridge \<times> act) option" where
  "send_command_cancel l ph s =
     (case ph of
        AtWrite data \<Rightarrow> Some (send_command_except l CancelledError s)
      | AtWait \<Rightarrow>
          Some (send_command_except l CancelledError
                  (s\<lparr>futs := resolve (fut_of l) FCancelled (futs s)\<rparr>))
      | _ \<Rightarrow> None)"

text \<open>
  The call runs again after \<^verbatim>\<open>wait_for\<close> (lines 161 to 168): with the message the
  future holds, with the exception it holds, or with the timeout. It cannot run while
  the future is unresolved.
\<close>

definition send_command_resume :: "locals \<Rightarrow> phase \<Rightarrow> bridge \<Rightarrow> (bridge \<times> act) option" where
  "send_command_resume l ph s =
     (case ph of
        TimedOut \<Rightarrow> Some (send_command_except l AsyncioTimeoutError s)
      | AtWait \<Rightarrow>
          (if fut_of l < length (futs s) then
             (case futs s ! fut_of l of
                FPending \<Rightarrow> None
              | FResult msg \<Rightarrow> Some (s, Send l (Ended (Returned msg)))
              | FException e \<Rightarrow> Some (send_command_except l e s)
              | FCancelled \<Rightarrow> Some (send_command_except l CancelledError s))
           else None)
      | _ \<Rightarrow> None)"

subsection \<open>The event loop\<close>

text \<open>
  One event runs one block. \<open>Start\<close> carries what \<^verbatim>\<open>asyncio.start_server\<close> does;
  \<open>Accept\<close> is a new inbound connection on a listening server, numbered next;
  \<open>HandlerResume\<close>, \<open>StopResume\<close> and \<open>SendResume\<close> run a suspended coroutine
  again; \<open>TaskHeader\<close> and \<open>TaskBody\<close> deliver the bytes a \<^verbatim>\<open>readexactly\<close> waited
  for, and \<open>TaskRaise\<close> delivers an exception instead (\<^verbatim>\<open>CancelledError\<close> exactly when
  the Task was cancelled, which then is the only thing it can receive).
\<close>

datatype event =
    Start "exc + nat"
  | Accept pyfloat
  | HandlerResume nat pyfloat
  | StopCall
  | StopResume nat
  | TaskBegin nat
  | TaskHeader nat "byte list"
  | TaskBody nat "byte list" "byte list \<Rightarrow> exc + json" pyfloat
  | TaskRaise nat exc
  | SendCall "json \<Rightarrow> exc + byte list" string string "(string \<times> json) list option" pyfloat
  | SendWrite nat "exc option"
  | SendTimeout nat
  | SendCancel nat
  | SendResume nat

definition spawn :: "bridge \<times> act \<Rightarrow> bridge" where
  "spawn r = (fst r)\<lparr>acts := acts (fst r) @ [snd r]\<rparr>"

definition settle :: "nat \<Rightarrow> bridge \<times> act \<Rightarrow> bridge" where
  "settle p r = (fst r)\<lparr>acts := (acts (fst r))[p := snd r]\<rparr>"

definition reading :: "tstate \<Rightarrow> bool" where
  "reading st = (case st of TReadHeader r \<Rightarrow> True | TReadBody r n \<Rightarrow> True | _ \<Rightarrow> False)"

fun step :: "event \<Rightarrow> bridge \<Rightarrow> bridge option" where
  "step (Start bound) s = Some (fst (start bound s))"
| "step (Accept now) s =
     (if listening s = [] then None
      else Some (spawn (handle_connection (nconns s) now (s\<lparr>nconns := Suc (nconns s)\<rparr>))))"
| "step (HandlerResume p now) s =
     (if p < length (acts s) then
        (case acts s ! p of
           HandleWait c \<Rightarrow>
             Some (settle p (handle_connection_finish c now s, Finished ReturnedNone))
         | _ \<Rightarrow> None)
      else None)"
| "step StopCall s = Some (spawn (stop s))"
| "step (StopResume p) s =
     (if p < length (acts s) then
        (case acts s ! p of
           StopWaitWriter \<Rightarrow> Some (settle p (stop_server s))
         | StopWaitServer \<Rightarrow> Some (settle p (stop_finish s, Finished ReturnedNone))
         | _ \<Rightarrow> None)
      else None)"
| "step (TaskBegin t) s =
     (if t < length (tasks s) \<and> fst (tasks s ! t) = TCreated
      then Some (read_loop_begin t s) else None)"
| "step (TaskHeader t header) s =
     (if t < length (tasks s) \<and> length header = 4 \<and> \<not> snd (tasks s ! t) then
        (case fst (tasks s ! t) of
           TReadHeader r \<Rightarrow> Some (read_loop_header t header s)
         | _ \<Rightarrow> None)
      else None)"
| "step (TaskBody t data loads now) s =
     (if t < length (tasks s) \<and> \<not> snd (tasks s ! t) then
        (case fst (tasks s ! t) of
           TReadBody r n \<Rightarrow>
             if length data = n then Some (read_loop_body loads t data now s) else None
         | _ \<Rightarrow> None)
      else None)"
| "step (TaskRaise t e) s =
     (if t < length (tasks s) \<and> reading (fst (tasks s ! t))
         \<and> (e = CancelledError) = snd (tasks s ! t)
      then Some (read_loop_finally t s) else None)"
| "step (SendCall dumps uuid4 command params timeout) s =
     Some (spawn (send_command dumps uuid4 command params timeout s))"
| "step (SendWrite p drained) s =
     (if p < length (acts s) then
        (case acts s ! p of
           Send l (AtWrite data) \<Rightarrow> Some (settle p (send_command_write l data drained s))
         | _ \<Rightarrow> None)
      else None)"
| "step (SendTimeout p) s =
     (if p < length (acts s) then
        (case acts s ! p of
           Send l AtWait \<Rightarrow>
             if fut_of l < length (futs s) \<and> futs s ! fut_of l = FPending
             then Some (settle p (send_command_timeout l s)) else None
         | _ \<Rightarrow> None)
      else None)"
| "step (SendCancel p) s =
     (if p < length (acts s) then
        (case acts s ! p of
           Send l ph \<Rightarrow> map_option (settle p) (send_command_cancel l ph s)
         | _ \<Rightarrow> None)
      else None)"
| "step (SendResume p) s =
     (if p < length (acts s) then
        (case acts s ! p of
           Send l ph \<Rightarrow> map_option (settle p) (send_command_resume l ph s)
         | _ \<Rightarrow> None)
      else None)"

fun run :: "event list \<Rightarrow> bridge \<Rightarrow> bridge option" where
  "run [] s = Some s"
| "run (e # es) s = (case step e s of None \<Rightarrow> None | Some s' \<Rightarrow> run es s')"

inductive reachable :: "bridge \<Rightarrow> bool" where
  reachable_init: "reachable init"
| reachable_step: "reachable s \<Longrightarrow> step e s = Some s' \<Longrightarrow> reachable s'"

section \<open>The HTTP layer's use of the bridge\<close>

text \<open>
  \<^verbatim>\<open>_cmd\<close> (\<^verbatim>\<open>server/api.py\<close>, lines 53 to 63) as a function of how
  \<^verbatim>\<open>bridge.send_command\<close> ended: it returns the response, raises an
  \<^verbatim>\<open>HTTPException\<close> with a status code and a detail, or lets an exception through.
  An \<^verbatim>\<open>HTTPException\<close> raised inside the \<^verbatim>\<open>try\<close> is caught by neither handler;
  \<^verbatim>\<open>except ConnectionError\<close> and \<^verbatim>\<open>except TimeoutError\<close> catch every instance of
  the class, derived classes included.
\<close>

datatype cmd_result = CmdReturn json | CmdHTTPException nat json | CmdRaise exc

definition cmd :: "outcome \<Rightarrow> cmd_result" where
  "cmd r =
     (case r of
        Returned resp \<Rightarrow>
          (case resp of
             JObj kvs \<Rightarrow>
               if truthy (dict_get kvs ''error'')
               then CmdHTTPException 400 (dict_get kvs ''error'')
               else CmdReturn resp
           | _ \<Rightarrow> CmdRaise (OtherException ''AttributeError''))
      | ReturnedNone \<Rightarrow> CmdRaise (OtherException ''AttributeError'')
      | Raised e \<Rightarrow>
          if is_ConnectionError e
          then CmdHTTPException 503 (JStr ''EA not connected to MT5'')
          else if is_TimeoutError e
          then CmdHTTPException 504 (JStr ''EA command timed out'')
          else CmdRaise e)"

text \<open>
  What every endpoint does with it: \<^verbatim>\<open>resp = await _cmd(...)\<close>, then
  \<^verbatim>\<open>return resp.get("data", d)\<close> with \<open>d\<close> an empty dict or list.
\<close>

definition endpoint_data :: "json \<Rightarrow> cmd_result \<Rightarrow> cmd_result" where
  "endpoint_data d r =
     (case r of
        CmdReturn resp \<Rightarrow>
          (case resp of
             JObj kvs \<Rightarrow> CmdReturn (dict_get_default kvs ''data'' d)
           | _ \<Rightarrow> CmdRaise (OtherException ''AttributeError''))
      | _ \<Rightarrow> r)"


section \<open>Concrete inputs\<close>

text \<open>
  A command name of a million letters, and the JSON text of the request
  \<^verbatim>\<open>{"id": "x", "command": "aaa...a"}\<close> that carries it, as bytes (1000026 of them); the
  JSON text of \<^verbatim>\<open>{"id": "x", "command": "tick"}\<close>; two responses of the EA; the local
  variables of a call that waits for them.
\<close>

definition big_command :: string where
  "big_command = replicate 1000000 (CHR ''a'')"

definition big_payload :: "byte list" where
  "big_payload =
     [123, 34, 105, 100, 34, 58, 32, 34, 120, 34, 44, 32, 34, 99, 111, 109, 109, 97, 110,
      100, 34, 58, 32, 34] @ replicate 1000000 97 @ [34, 125]"

definition small_payload :: "byte list" where
  "small_payload =
     [123, 34, 105, 100, 34, 58, 32, 34, 120, 34, 44, 32, 34, 99, 111, 109, 109, 97, 110,
      100, 34, 58, 32, 34, 116, 105, 99, 107, 34, 125]"

definition account_reply :: json where
  "account_reply = JObj [(''id'', JStr ''x''), (''data'', JObj [(''balance'', JInt 1000)])]"

definition error_reply :: json where
  "error_reply = JObj [(''id'', JStr ''x''), (''error'', JStr ''unknown command'')]"

definition waiting_call :: locals where
  "waiting_call = Locals ''x'' 0 ''account_info'' (PyFloat 10 0)"

text \<open>
  States and runs of the bridge. In \<open>waiting_run\<close> the server starts, the EA connects,
  its read loop begins, and one call registers, writes its frame and waits:
  \<open>waiting_state\<close>. From there the call times out (\<open>timed_out_state\<close>) and raises
  (\<open>gave_up_state\<close>), or its caller's Task is cancelled (\<open>cancelled_state\<close>), or the
  EA disconnects (\<open>disconnected_state\<close>). \<open>oversized_header\<close> announces 1000001
  bytes. In \<open>two_calls_run\<close> two calls with ids \<^verbatim>\<open>x\<close> and \<^verbatim>\<open>y\<close> wait and the EA
  answers \<^verbatim>\<open>{"id": "y", "data": 2}\<close> first, then \<^verbatim>\<open>{"id": "x", "data": 1}\<close>. In \<open>overlap_run\<close> a connection is current
  and two more arrive in the same turn of the event loop: both handlers run up to
  their \<^verbatim>\<open>await\<close>, the cancelled read loop ends, then both handlers resume.
\<close>

definition tick_frame :: "byte list" where
  "tick_frame = [0, 0, 0, 30] @ small_payload"

definition waiting_run :: "event list" where
  "waiting_run =
     [Start (Inr 0), Accept (PyFloat 1 0), TaskBegin 0,
      SendCall (\<lambda>m. Inr small_payload) ''x'' ''tick'' None (PyFloat 10 0),
      SendWrite 1 None]"

definition waiting_state :: bridge where
  "waiting_state =
     \<lparr>server = Some 0, reader = Some 0, writer = Some 0, pending = [(''x'', 0)],
      connected = True, last_seen = Some (PyFloat 1 0), read_task = Some 0,
      futs = [FPending], tasks = [(TReadHeader 0, False)],
      acts = [Finished ReturnedNone, Send (Locals ''x'' 0 ''tick'' (PyFloat 10 0)) AtWait],
      listening = [0], closed_writers = [], nconns = 1, sent = [(0, tick_frame)]\<rparr>"

definition tick_call :: locals where
  "tick_call = Locals ''x'' 0 ''tick'' (PyFloat 10 0)"

definition timed_out_state :: bridge where
  "timed_out_state =
     waiting_state\<lparr>futs := [FCancelled],
                   acts := [Finished ReturnedNone, Send tick_call TimedOut]\<rparr>"

definition gave_up_state :: bridge where
  "gave_up_state =
     timed_out_state\<lparr>pending := [],
       acts := [Finished ReturnedNone,
                Send tick_call (Ended (Raised (TimeoutError ''tick'' (PyFloat 10 0))))]\<rparr>"

definition cancelled_state :: bridge where
  "cancelled_state =
     waiting_state\<lparr>futs := [FCancelled],
       acts := [Finished ReturnedNone, Send tick_call (Ended (Raised CancelledError))]\<rparr>"

definition reply_x :: json where
  "reply_x = JObj [(''id'', JStr ''x''), (''data'', JInt 1)]"

definition reply_x_body :: "byte list" where
  "reply_x_body =
     [123, 34, 105, 100, 34, 58, 32, 34, 120, 34, 44, 32, 34, 100, 97, 116, 97, 34, 58, 32,
      49, 125]"

definition reply_y :: json where
  "reply_y = JObj [(''id'', JStr ''y''), (''data'', JInt 2)]"

definition reply_y_body :: "byte list" where
  "reply_y_body =
     [123, 34, 105, 100, 34, 58, 32, 34, 121, 34, 44, 32, 34, 100, 97, 116, 97, 34, 58, 32,
      50, 125]"

definition small_payload_y :: "byte list" where
  "small_payload_y =
     [123, 34, 105, 100, 34, 58, 32, 34, 121, 34, 44, 32, 34, 99, 111, 109, 109, 97, 110,
      100, 34, 58, 32, 34, 116, 105, 99, 107, 34, 125]"

definition overlap_run :: "event list" where
  "overlap_run =
     [Start (Inr 0), Accept (PyFloat 1 0), TaskBegin 0,
      Accept (PyFloat 2 0), Accept (PyFloat 3 0), TaskRaise 0 CancelledError,
      HandlerResume 1 (PyFloat 4 0), HandlerResume 2 (PyFloat 5 0)]"

definition overlap_state :: bridge where
  "overlap_state =
     \<lparr>server = Some 0, reader = Some 2, writer = Some 2, pending = [],
      connected = True, last_seen = Some (PyFloat 5 0), read_task = Some 2,
      futs = [], tasks = [(TDone, False), (TCreated, False), (TCreated, False)],
      acts = [Finished ReturnedNone, Finished ReturnedNone, Finished ReturnedNone],
      listening = [0], closed_writers = [0, 0], nconns = 3, sent = []\<rparr>"

definition disconnected_state :: bridge where
  "disconnected_state =
     waiting_state\<lparr>pending := [], connected := False,
       futs := [FException (ConnectionError ''EA disconnected'')],
       tasks := [(TDone, False)]\<rparr>"

definition oversized_header :: "byte list" where
  "oversized_header = [0, 15, 66, 65]"

definition two_calls_run :: "event list" where
  "two_calls_run =
     [Start (Inr 0), Accept (PyFloat 1 0), TaskBegin 0,
      SendCall (\<lambda>m. Inr small_payload) ''x'' ''tick'' None (PyFloat 10 0),
      SendCall (\<lambda>m. Inr small_payload_y) ''y'' ''tick'' None (PyFloat 10 0),
      SendWrite 1 None, SendWrite 2 None,
      TaskHeader 0 [0, 0, 0, 22],
      TaskBody 0 reply_y_body (\<lambda>b. Inr reply_y) (PyFloat 2 0),
      TaskHeader 0 [0, 0, 0, 22],
      TaskBody 0 reply_x_body (\<lambda>b. Inr reply_x) (PyFloat 3 0),
      SendResume 1, SendResume 2]"

definition two_calls_state :: bridge where
  "two_calls_state =
     \<lparr>server = Some 0, reader = Some 0, writer = Some 0, pending = [],
      connected = True, last_seen = Some (PyFloat 3 0), read_task = Some 0,
      futs = [FResult reply_x, FResult reply_y],
      tasks = [(TReadHeader 0, False)],
      acts = [Finished ReturnedNone,
              Send (Locals ''x'' 0 ''tick'' (PyFloat 10 0)) (Ended (Returned reply_x)),
              Send (Locals ''y'' 1 ''tick'' (PyFloat 10 0)) (Ended (Returned reply_y))],
      listening = [0], closed_writers = [], nconns = 1,
      sent = [(0, tick_frame), (0, [0, 0, 0, 30] @ small_payload_y)]\<rparr>"

text \<open>
  More states reached from \<open>waiting_state\<close>. \<^verbatim>\<open>stop()\<close> is called and has closed the
  writer and the server (\<open>stopping_state\<close>), then runs to its end (\<open>stopped_state\<close>).
  In \<open>write_failed_run\<close> the call registers its request and \<^verbatim>\<open>drain()\<close> raises
  \<^verbatim>\<open>ConnectionResetError\<close> (\<open>write_failed_state\<close>). In \<open>cancelled_task_run\<close> the call
  registers and writes before the read Task has run, and a second connection arrives:
  its handler cancels the read Task, which has not run yet (\<open>cancelled_task_state\<close>).
\<close>

definition stopping_state :: bridge where
  "stopping_state =
     waiting_state\<lparr>tasks := [(TReadHeader 0, True)], closed_writers := [0], listening := [],
       acts := [Finished ReturnedNone, Send tick_call AtWait, StopWaitServer]\<rparr>"

definition stopped_state :: bridge where
  "stopped_state =
     stopping_state\<lparr>pending := [], connected := False,
       futs := [FException (ConnectionError ''Bridge shutting down'')],
       acts := [Finished ReturnedNone, Send tick_call AtWait, Finished ReturnedNone]\<rparr>"

definition write_failed_run :: "event list" where
  "write_failed_run =
     [Start (Inr 0), Accept (PyFloat 1 0), TaskBegin 0,
      SendCall (\<lambda>m. Inr small_payload) ''x'' ''tick'' None (PyFloat 10 0),
      SendWrite 1 (Some (OtherException ''ConnectionResetError''))]"

definition write_failed_state :: bridge where
  "write_failed_state =
     waiting_state\<lparr>pending := [],
       acts := [Finished ReturnedNone,
                Send tick_call (Ended (Raised (OtherException ''ConnectionResetError'')))]\<rparr>"

definition cancelled_task_run :: "event list" where
  "cancelled_task_run =
     [Start (Inr 0), Accept (PyFloat 1 0),
      SendCall (\<lambda>m. Inr small_payload) ''x'' ''tick'' None (PyFloat 10 0),
      SendWrite 1 None, Accept (PyFloat 2 0)]"

definition cancelled_task_state :: bridge where
  "cancelled_task_state =
     waiting_state\<lparr>tasks := [(TCreated, True)], closed_writers := [0], nconns := 2,
       acts := [Finished ReturnedNone, Send tick_call AtWait, HandleWait 1]\<rparr>"

section \<open>Predicates used to state the properties\<close>

text \<open>A future that ended with an exception or was cancelled: its caller gets an error.\<close>

definition failed :: "fstate \<Rightarrow> bool" where
  "failed x = (case x of FException e \<Rightarrow> True | FCancelled \<Rightarrow> True | _ \<Rightarrow> False)"

text \<open>
  Futures are assigned once: from one store to a later one no future disappears and
  none that was resolved changes.
\<close>

definition write_once :: "fstate list \<Rightarrow> fstate list \<Rightarrow> bool" where
  "write_once fs fs' =
     (length fs \<le> length fs' \<and> (\<forall>f<length fs. fs ! f \<noteq> FPending \<longrightarrow> fs' ! f = fs ! f))"

text \<open>
  What holds of a \<^verbatim>\<open>send_command\<close> call with locals \<open>l\<close> in phase \<open>ph\<close>: its future
  exists; a message in the future, or returned by the call, carries the call's id; the
  table holds the future under no other key.
\<close>

definition call_ok :: "(string \<times> fut) list \<Rightarrow> fstate list \<Rightarrow> locals \<Rightarrow> phase \<Rightarrow> bool" where
  "call_ok pe fs l ph =
     (fut_of l < length fs
      \<and> (\<forall>m. fs ! fut_of l = FResult m \<longrightarrow> msg_id m = JStr (req_id l))
      \<and> (\<forall>m. ph = Ended (Returned m) \<longrightarrow> msg_id m = JStr (req_id l))
      \<and> (\<forall>k. (k, fut_of l) \<in> set pe \<longrightarrow> k = req_id l))"

text \<open>
  The invariant of the table, the futures and the calls: keys and futures of the table
  are distinct, every future in the table exists and is unresolved or cancelled, and
  every call is in order.
\<close>

definition inv_core :: "(string \<times> fut) list \<Rightarrow> fstate list \<Rightarrow> act list \<Rightarrow> bool" where
  "inv_core pe fs as =
     (distinct (map fst pe) \<and> distinct (map snd pe)
      \<and> (\<forall>(k, f) \<in> set pe. f < length fs \<and> (fs ! f = FPending \<or> fs ! f = FCancelled))
      \<and> (\<forall>p<length as. \<forall>l ph. as ! p = Send l ph \<longrightarrow> call_ok pe fs l ph))"

definition inv :: "bridge \<Rightarrow> bool" where
  "inv s =
     (inv_core (pending s) (futs s) (acts s)
      \<and> (tasks s \<noteq> [] \<longrightarrow> reader s \<noteq> None \<and> writer s \<noteq> None))"

text \<open>
  A step in which a call of \<^verbatim>\<open>stop()\<close> returns, and a step in which a \<^verbatim>\<open>_read_loop\<close>
  that has entered its \<^verbatim>\<open>try\<close> leaves it, by \<^verbatim>\<open>break\<close> or by an exception
  (\<^verbatim>\<open>CancelledError\<close> included), so that its \<^verbatim>\<open>finally\<close> block runs. The second is
  not every way a read Task can end: a Task cancelled before its first run ends in its
  \<open>TaskBegin\<close> step without running a line of \<^verbatim>\<open>_read_loop\<close>, which
  \<open>read_task_never_ran\<close> singles out.
\<close>

definition stop_returns :: "event \<Rightarrow> bridge \<Rightarrow> bridge \<Rightarrow> bool" where
  "stop_returns e s s' =
     (case e of
        StopCall \<Rightarrow> acts s' ! length (acts s) = Finished ReturnedNone
      | StopResume p \<Rightarrow> acts s' ! p = Finished ReturnedNone
      | _ \<Rightarrow> False)"

definition read_loop_leaves_try :: "event \<Rightarrow> bridge \<Rightarrow> bridge \<Rightarrow> bool" where
  "read_loop_leaves_try e s s' =
     (case e of
        TaskBegin t \<Rightarrow> \<not> snd (tasks s ! t) \<and> fst (tasks s' ! t) = TDone
      | TaskHeader t header \<Rightarrow> fst (tasks s' ! t) = TDone
      | TaskBody t data loads now \<Rightarrow> fst (tasks s' ! t) = TDone
      | TaskRaise t x \<Rightarrow> True
      | _ \<Rightarrow> False)"

definition read_task_never_ran :: "event \<Rightarrow> bridge \<Rightarrow> bool" where
  "read_task_never_ran e s = (case e of TaskBegin t \<Rightarrow> snd (tasks s ! t) | _ \<Rightarrow> False)"

text \<open>
  A call with locals \<open>l\<close> suspended in \<^verbatim>\<open>wait_for\<close> can run again in state \<open>s\<close>, and
  when it does it ends by raising.
\<close>

definition raises_on_resume :: "locals \<Rightarrow> bridge \<Rightarrow> bool" where
  "raises_on_resume l s =
     (case send_command_resume l AtWait s of
        Some (s1, Send l1 (Ended (Raised x))) \<Rightarrow> l1 = l
      | _ \<Rightarrow> False)"

text \<open>
  What a teardown of the table in state \<open>s\<close> leaves in state \<open>s'\<close>: the table is
  empty, and every future that was in the table is failed, so that the call waiting for
  it runs again and raises.
\<close>

definition torn_down :: "bridge \<Rightarrow> bridge \<Rightarrow> bool" where
  "torn_down s s' =
     (pending s' = []
      \<and> (\<forall>(k, f) \<in> set (pending s).
            failed (futs s' ! f) \<and> (\<forall>l. fut_of l = f \<longrightarrow> raises_on_resume l s')))"

text \<open>
  The ids \<^verbatim>\<open>uuid.uuid4\<close> handed out in a run, and the ids of the calls that got as far
  as generating one.
\<close>

fun uuids :: "event list \<Rightarrow> string list" where
  "uuids [] = []"
| "uuids (SendCall dumps uuid4 command params timeout # es) = uuid4 # uuids es"
| "uuids (e # es) = uuids es"

fun call_ids :: "act list \<Rightarrow> string list" where
  "call_ids [] = []"
| "call_ids (Send l ph # as) = req_id l # call_ids as"
| "call_ids (a # as) = call_ids as"

text \<open>
  What a block of a \<^verbatim>\<open>send_command\<close> call with locals \<open>l\<close> must hand back for the
  invariant to stay: the coroutine list untouched, the invariant on the new state, and
  the same call in a phase that is in order.
\<close>

definition send_ok :: "bridge \<Rightarrow> locals \<Rightarrow> bridge \<times> act \<Rightarrow> bool" where
  "send_ok s l r =
     (acts (fst r) = acts s \<and> inv (fst r)
      \<and> (\<exists>ph. snd r = Send l ph \<and> call_ok (pending (fst r)) (futs (fst r)) l ph))"

text \<open>
  What a step that tears the table down leaves: an empty table, and every future that
  was in it present and failed.
\<close>

definition torn :: "bridge \<Rightarrow> bridge \<Rightarrow> bool" where
  "torn s s' = (pending s' = []
     \<and> (\<forall>(k, f) \<in> set (pending s). f < length (futs s') \<and> failed (futs s' ! f)))"



section \<open>Framing: length prefix and round trip\<close>

text \<open>A number below \<open>2^32\<close> is the sum of its four base-256 digits.\<close>

lemma be32:
  assumes "n < 4294967296"
  shows "(n div 16777216) mod 256 * 16777216 + (n div 65536) mod 256 * 65536
         + (n div 256) mod 256 * 256 + n mod 256 = (n::nat)"
proof -
  define a where "a = n div 256"
  define b where "b = a div 256"
  define c where "c = b div 256"
  have b: "n div 65536 = b"
    unfolding b_def a_def by (simp add: div_mult2_eq[symmetric])
  have c: "n div 16777216 = c"
    unfolding c_def b_def a_def by (simp add: div_mult2_eq[symmetric])
  have n: "n = a * 256 + n mod 256"
    unfolding a_def by simp
  have a: "a = b * 256 + a mod 256"
    unfolding b_def by simp
  have b': "b = c * 256 + b mod 256"
    unfolding c_def by simp
  have "c < 256"
    using assms unfolding c[symmetric] by simp
  then have c': "c mod 256 = c"
    by simp
  have "c * 16777216 + b mod 256 * 65536 + a mod 256 * 256 + n mod 256 = n"
    using n a b' by linarith
  then show ?thesis
    unfolding b c a_def[symmetric] c' .
qed

lemma be32_top:
  assumes "n < 4294967296"
  shows "n div 16777216 * 16777216 + (n div 65536) mod 256 * 65536
         + (n div 256) mod 256 * 256 + n mod 256 = (n::nat)"
proof -
  have "n div 16777216 < 256"
    using assms by simp
  then have "(n div 16777216) mod 256 = n div 16777216"
    by simp
  with be32[OF assms] show ?thesis
    by simp
qed

lemma struct_unpack_pack: "struct_pack_I n = Some h \<Longrightarrow> struct_unpack_I h = Some n"
  by (auto simp: struct_pack_I_def struct_unpack_I_def unat_of_nat be32_top split: if_splits)

lemma struct_pack_length: "struct_pack_I n = Some h \<Longrightarrow> length h = 4"
  by (auto simp: struct_pack_I_def split: if_splits)

lemma struct_pack_small: "n \<le> 1000000 \<Longrightarrow> \<exists>h. struct_pack_I n = Some h"
  by (simp add: struct_pack_I_def)

text \<open>
  Claim C6, as amended. For every envelope \<open>e\<close> whose JSON text \<open>payload\<close> (what
  \<^verbatim>\<open>json.dumps(e).encode("utf-8")\<close> returns) has at most 1000000 bytes and parses back
  to \<open>e\<close>: the frame \<^verbatim>\<open>send_command\<close> writes is the four-byte big-endian length of
  the text followed by the text, and one turn of \<^verbatim>\<open>_read_loop\<close> on a stream that starts
  with this frame reads the header, then exactly the text, yields \<open>e\<close> and leaves the rest
  of the stream unread.
\<close>

theorem frame_roundtrip:
  assumes "dumps e = Inr payload" and "loads payload = Inr e"
    and "length payload \<le> 1000000"
  shows "\<exists>header. struct_pack_I (length payload) = Some header \<and> length header = 4
           \<and> struct_unpack_I header = Some (length payload)
           \<and> send_command_frame dumps e = Inr (header @ payload)
           \<and> read_loop_frame loads (header @ payload @ rest) = Frame e rest"
proof -
  from assms(3) obtain header where h: "struct_pack_I (length payload) = Some header"
    using struct_pack_small by blast
  have len: "length header = 4"
    using h by (rule struct_pack_length)
  have un: "struct_unpack_I header = Some (length payload)"
    using h by (rule struct_unpack_pack)
  have enc: "send_command_frame dumps e = Inr (header @ payload)"
    by (simp add: send_command_frame_def assms(1) h)
  have dec: "read_loop_frame loads (header @ payload @ rest) = Frame e rest"
    using assms(2,3) by (simp add: read_loop_frame_def len un)
  from h len un enc dec show ?thesis
    by blast
qed

text \<open>The hypotheses of C6 hold for the request \<^verbatim>\<open>{"id": "x", "command": "tick"}\<close>.\<close>

theorem frame_roundtrip_witness:
  "\<exists>header. struct_pack_I (length small_payload) = Some header \<and> length header = 4
     \<and> struct_unpack_I header = Some (length small_payload)
     \<and> send_command_frame (\<lambda>m. Inr small_payload) (request_message ''x'' ''tick'' None)
         = Inr (header @ small_payload)
     \<and> read_loop_frame (\<lambda>b. Inr (request_message ''x'' ''tick'' None))
         (header @ small_payload @ []) = Frame (request_message ''x'' ''tick'' None) []"
  using frame_roundtrip [of "\<lambda>m. Inr small_payload" "request_message ''x'' ''tick'' None"
      small_payload "\<lambda>b. Inr (request_message ''x'' ''tick'' None)" "[]"]
  by (simp add: small_payload_def)

text \<open>
  Claim C6 as stated fails: the request with the command name of a million letters is
  JSON-serializable, \<^verbatim>\<open>send_command\<close> frames its 1000026 bytes of text, and
  \<^verbatim>\<open>_read_loop\<close> refuses that frame at the header (\<^verbatim>\<open>msg_len > 1_000_000\<close>, line 101)
  instead of yielding the request.
\<close>

theorem frame_roundtrip_counterexample:
  "send_command_frame (\<lambda>m. Inr big_payload) (request_message ''x'' big_command None)
     = Inr ([0, 15, 66, 90] @ big_payload)
   \<and> read_loop_frame (\<lambda>b. Inr (request_message ''x'' big_command None))
       ([0, 15, 66, 90] @ big_payload) = TooLarge 1000026 big_payload"
  by (simp add: send_command_frame_def read_loop_frame_def struct_pack_I_def
      struct_unpack_I_def big_payload_def)

section \<open>Single calls\<close>

text \<open>
  Claim C7. Whenever the bridge is not connected or has no writer, \<^verbatim>\<open>send_command\<close>
  raises \<^verbatim>\<open>ConnectionError("EA not connected")\<close> at once: no id is generated, no future
  is created, the table is not touched and nothing is written. The whole state is
  unchanged; the event loop only records how the call ended.
\<close>

theorem send_command_not_connected:
  assumes "\<not> connected s \<or> writer s = None"
  shows "send_command dumps uuid4 command params timeout s
           = (s, Finished (Raised (ConnectionError ''EA not connected'')))
         \<and> step (SendCall dumps uuid4 command params timeout) s
           = Some (s\<lparr>acts := acts s @ [Finished (Raised (ConnectionError ''EA not connected''))]\<rparr>)"
  using assms by (auto simp: send_command_def spawn_def)

text \<open>The hypothesis of C7 holds in the initial state.\<close>

theorem send_command_not_connected_witness:
  "\<not> connected init
   \<and> send_command (\<lambda>m. Inr []) ''x'' ''tick'' None (PyFloat 10 0) init
       = (init, Finished (Raised (ConnectionError ''EA not connected'')))
   \<and> step (SendCall (\<lambda>m. Inr []) ''x'' ''tick'' None (PyFloat 10 0)) init
       = Some (init\<lparr>acts := acts init @ [Finished (Raised (ConnectionError ''EA not connected''))]\<rparr>)"
proof -
  have h: "\<not> connected init"
    by (simp add: init_def)
  then have "\<not> connected init \<or> writer init = None"
    by simp
  from h send_command_not_connected [OF this] show ?thesis
    by (rule conjI)
qed

text \<open>
  Claim C9 as stated fails: a second \<^verbatim>\<open>start()\<close> with no \<^verbatim>\<open>stop()\<close> in between, for
  which \<^verbatim>\<open>asyncio.start_server\<close> binds again (a bridge made with \<^verbatim>\<open>port=0\<close> gets a free
  port each time), returns normally; the second server replaces the first in
  \<^verbatim>\<open>_server\<close> and both listen.
\<close>

theorem start_twice_counterexample:
  "snd (start (Inr 1) (fst (start (Inr 0) init))) = ReturnedNone
   \<and> server (fst (start (Inr 1) (fst (start (Inr 0) init)))) = Some 1
   \<and> listening (fst (start (Inr 1) (fst (start (Inr 0) init)))) = [1, 0]"
  by (simp add: start_def init_def)

text \<open>
  Claim C9, as amended. \<^verbatim>\<open>start()\<close> has no guard: in every state, started or not, it
  calls \<^verbatim>\<open>asyncio.start_server\<close>; when that returns a server, \<^verbatim>\<open>start\<close> stores it in
  \<^verbatim>\<open>_server\<close> (in place of any earlier one, which keeps listening) and returns; when that
  raises (an \<^verbatim>\<open>OSError\<close> for an address in use), the exception is what the caller gets
  and the state is unchanged.
\<close>

theorem start_unguarded:
  "start (Inr srv) s = (s\<lparr>server := Some srv, listening := srv # listening s\<rparr>, ReturnedNone)
   \<and> start (Inl e) s = (s, Raised e)
   \<and> step (Start (Inr srv)) s = Some (s\<lparr>server := Some srv, listening := srv # listening s\<rparr>)
   \<and> step (Start (Inl e)) s = Some s"
  by (simp add: start_def)

text \<open>
  Claim C8 as stated fails: \<^verbatim>\<open>send_command\<close> returns a response that carries
  \<^verbatim>\<open>error\<close> like any other, and \<^verbatim>\<open>_cmd\<close> returns the whole response
  \<^verbatim>\<open>{"id": "x", "data": {"balance": 1000}}\<close>, not its \<^verbatim>\<open>data\<close>.
\<close>

theorem reply_surfaced_counterexample:
  "send_command_resume waiting_call AtWait (init\<lparr>futs := [FResult error_reply]\<rparr>)
     = Some (init\<lparr>futs := [FResult error_reply]\<rparr>, Send waiting_call (Ended (Returned error_reply)))
   \<and> cmd (Returned account_reply) = CmdReturn account_reply
   \<and> account_reply \<noteq> JObj [(''balance'', JInt 1000)]"
  by (simp add: send_command_resume_def waiting_call_def cmd_def account_reply_def
      error_reply_def dict_get_def dict_get_default_def)

text \<open>
  Claim C8, as amended. When the future of a call holds a response, \<^verbatim>\<open>send_command\<close>
  returns that response unchanged, with or without \<^verbatim>\<open>error\<close>. \<^verbatim>\<open>_cmd\<close> raises
  \<^verbatim>\<open>HTTPException(400)\<close> with the \<^verbatim>\<open>error\<close> value as detail when that value is
  truthy, and returns the whole response otherwise; the endpoint then takes
  \<^verbatim>\<open>data\<close> from it, or its default when the response has none.
\<close>

theorem reply_surfaced:
  assumes "fut_of l < length (futs s)" and "futs s ! fut_of l = FResult (JObj kvs)"
  shows "send_command_resume l AtWait s = Some (s, Send l (Ended (Returned (JObj kvs))))
         \<and> cmd (Returned (JObj kvs))
             = (if truthy (dict_get kvs ''error'')
                then CmdHTTPException 400 (dict_get kvs ''error'')
                else CmdReturn (JObj kvs))
         \<and> endpoint_data d (cmd (Returned (JObj kvs)))
             = (if truthy (dict_get kvs ''error'')
                then CmdHTTPException 400 (dict_get kvs ''error'')
                else CmdReturn (dict_get_default kvs ''data'' d))"
  using assms by (simp add: send_command_resume_def cmd_def endpoint_data_def)

text \<open>The hypotheses of C8 hold for the response \<^verbatim>\<open>{"id": "x", "data": {"balance": 1000}}\<close>.\<close>

theorem reply_surfaced_witness:
  "send_command_resume waiting_call AtWait (init\<lparr>futs := [FResult account_reply]\<rparr>)
     = Some (init\<lparr>futs := [FResult account_reply]\<rparr>,
             Send waiting_call (Ended (Returned account_reply)))
   \<and> cmd (Returned account_reply) = CmdReturn account_reply
   \<and> endpoint_data (JObj []) (cmd (Returned account_reply))
       = CmdReturn (JObj [(''balance'', JInt 1000)])"
  using reply_surfaced [of waiting_call "init\<lparr>futs := [FResult account_reply]\<rparr>"
      "[(''id'', JStr ''x''), (''data'', JObj [(''balance'', JInt 1000)])]" "JObj []"]
  by (auto simp: waiting_call_def account_reply_def dict_get_def dict_get_default_def)

section \<open>The invariant of table, futures and calls\<close>

lemma length_resolve [simp]: "length (resolve f v fs) = length fs"
  by (simp add: resolve_def)

lemma nth_resolve:
  "resolve f v fs ! g = (if g = f \<and> f < length fs \<and> fs ! f = FPending then v else fs ! g)"
  by (simp add: resolve_def)

lemma length_fold_resolve [simp]: "length (fold (\<lambda>f. resolve f v) xs fs) = length fs"
  by (induction xs arbitrary: fs) simp_all

lemma nth_fold_resolve:
  "fold (\<lambda>f. resolve f v) xs fs ! g
     = (if g \<in> set xs \<and> g < length fs \<and> fs ! g = FPending then v else fs ! g)"
  by (induction xs arbitrary: fs) (auto simp: nth_resolve)

lemma write_once_refl [simp]: "write_once fs fs"
  by (simp add: write_once_def)

lemma write_once_trans: "write_once a b \<Longrightarrow> write_once b c \<Longrightarrow> write_once a c"
  by (auto simp: write_once_def)

lemma write_once_resolve [simp]: "write_once fs (resolve f v fs)"
  by (simp add: write_once_def nth_resolve)

lemma write_once_fold_resolve [simp]: "write_once fs (fold (\<lambda>f. resolve f v) xs fs)"
  by (simp add: write_once_def nth_fold_resolve)

lemma write_once_append [simp]: "write_once fs (fs @ gs)"
  by (simp add: write_once_def nth_append)

subsection \<open>The table as an association list\<close>

lemma set_delete_subset: "set (AList.delete k al) \<subseteq> set al"
  by (auto simp: AList.delete_eq)

lemma set_delete_key: "(k', v) \<in> set (AList.delete k al) \<Longrightarrow> k' \<noteq> k"
  by (auto simp: AList.delete_eq)

lemma distinct_snd_delete: "distinct (map snd al) \<Longrightarrow> distinct (map snd (AList.delete k al))"
  by (simp add: AList.delete_eq distinct_map_filter)

lemma set_update_subset: "set (AList.update k v al) \<subseteq> insert (k, v) (set al)"
  by (induction al) auto

lemma distinct_snd_update:
  "distinct (map snd al) \<Longrightarrow> v \<notin> snd ` set al \<Longrightarrow> distinct (map snd (AList.update k v al))"
proof (induction al)
  case Nil
  then show ?case by simp
next
  case (Cons a al)
  have sub: "snd ` set (AList.update k v al) \<subseteq> insert v (snd ` set al)"
    using set_update_subset [of k v al] by force
  from Cons show ?case
    using sub by (cases a) (auto simp: image_iff)
qed

lemma snd_inj_table:
  "distinct (map snd al) \<Longrightarrow> (k, f) \<in> set al \<Longrightarrow> (k', f) \<in> set al \<Longrightarrow> k' = k"
  by (metis distinct_map inj_onD prod.inject snd_conv)

subsection \<open>The invariant under each change of table and futures\<close>

lemma call_ok_phase:
  "call_ok pe fs l ph \<Longrightarrow> (\<And>m. ph' = Ended (Returned m) \<Longrightarrow> msg_id m = JStr (req_id l))
     \<Longrightarrow> call_ok pe fs l ph'"
  by (simp add: call_ok_def)

lemma call_ok_pop: "call_ok pe fs l ph \<Longrightarrow> call_ok (AList.delete k pe) fs l ph"
  using set_delete_subset [of k pe] by (auto simp: call_ok_def)

lemma inv_core_fail:
  assumes "inv_core pe fs as"
  shows "inv_core [] (fold (\<lambda>f. resolve f (FException e)) xs fs) as"
  using assms by (auto simp: inv_core_def call_ok_def nth_fold_resolve)

lemma inv_core_pop:
  assumes "inv_core pe fs as"
  shows "inv_core (AList.delete k pe) fs as"
  using assms set_delete_subset [of k pe]
  by (auto simp: inv_core_def AList.distinct_delete distinct_snd_delete intro: call_ok_pop)

lemma inv_core_cancel:
  assumes "inv_core pe fs as"
  shows "inv_core pe (resolve f FCancelled fs) as"
  using assms by (auto simp: inv_core_def call_ok_def nth_resolve)

lemma inv_core_route:
  assumes "inv_core pe fs as" and "map_of pe k = Some f" and "msg_id msg = JStr k"
  shows "inv_core (AList.delete k pe) (resolve f (FResult msg) fs) as"
proof -
  have kf: "(k, f) \<in> set pe"
    using assms(2) by (rule map_of_SomeD)
  have d: "distinct (map snd pe)"
    using assms(1) by (simp add: inv_core_def)
  have other: "f' \<noteq> f" if "(k', f') \<in> set (AList.delete k pe)" for k' f'
  proof
    assume eq: "f' = f"
    from that have "(k', f') \<in> set pe"
      using set_delete_subset [of k pe] by blast
    with eq have "(k', f) \<in> set pe"
      by simp
    with d kf have "k' = k"
      by (rule snd_inj_table)
    moreover from that have "k' \<noteq> k"
      by (rule set_delete_key)
    ultimately show False
      by simp
  qed
  have tab: "\<forall>(k', f') \<in> set (AList.delete k pe). f' < length (resolve f (FResult msg) fs)
      \<and> (resolve f (FResult msg) fs ! f' = FPending \<or> resolve f (FResult msg) fs ! f' = FCancelled)"
  proof (clarify)
    fix k' f' assume in_del: "(k', f') \<in> set (AList.delete k pe)"
    then have "(k', f') \<in> set pe"
      using set_delete_subset [of k pe] by blast
    with assms(1) have "f' < length fs \<and> (fs ! f' = FPending \<or> fs ! f' = FCancelled)"
      by (auto simp: inv_core_def)
    with other [OF in_del]
    show "f' < length (resolve f (FResult msg) fs)
      \<and> (resolve f (FResult msg) fs ! f' = FPending \<or> resolve f (FResult msg) fs ! f' = FCancelled)"
      by (simp add: nth_resolve)
  qed
  have calls: "call_ok (AList.delete k pe) (resolve f (FResult msg) fs) l ph"
    if "p < length as" and "as ! p = Send l ph" for p l ph
  proof -
    from assms(1) that have ok: "call_ok pe fs l ph"
      by (simp add: inv_core_def)
    have "msg_id msg = JStr (req_id l)" if "fut_of l = f"
      using ok kf that assms(3) by (auto simp: call_ok_def)
    with ok show ?thesis
      using set_delete_subset [of k pe] by (auto simp: call_ok_def nth_resolve)
  qed
  from assms(1) tab calls show ?thesis
    by (simp add: inv_core_def AList.distinct_delete distinct_snd_delete)
qed

lemma inv_core_register:
  assumes "inv_core pe fs as" and "\<And>m. ph \<noteq> Ended (Returned m)"
  shows "inv_core (AList.update u (length fs) pe) (fs @ [FPending])
           (as @ [Send (Locals u (length fs) c t) ph])"
proof -
  have range: "\<forall>(k, f) \<in> set pe. f < length fs"
    using assms(1) by (auto simp: inv_core_def)
  then have fresh: "length fs \<notin> snd ` set pe"
    by force
  have sub: "set (AList.update u (length fs) pe) \<subseteq> insert (u, length fs) (set pe)"
    by (rule set_update_subset)
  have tab: "\<forall>(k, f) \<in> set (AList.update u (length fs) pe). f < length (fs @ [FPending])
      \<and> ((fs @ [FPending]) ! f = FPending \<or> (fs @ [FPending]) ! f = FCancelled)"
    using assms(1) sub by (auto simp: inv_core_def nth_append)
  have old: "call_ok (AList.update u (length fs) pe) (fs @ [FPending]) l ph'"
    if "call_ok pe fs l ph'" for l ph'
    using that sub by (auto simp: call_ok_def nth_append)
  have new: "call_ok (AList.update u (length fs) pe) (fs @ [FPending])
      (Locals u (length fs) c t) ph"
    using sub range assms(2) by (auto simp: call_ok_def)
  have calls: "call_ok (AList.update u (length fs) pe) (fs @ [FPending]) l ph'"
    if "p < length (as @ [Send (Locals u (length fs) c t) ph])"
      and "(as @ [Send (Locals u (length fs) c t) ph]) ! p = Send l ph'" for p l ph'
  proof (cases "p < length as")
    case True
    with that assms(1) have "call_ok pe fs l ph'"
      by (simp add: inv_core_def nth_append)
    then show ?thesis by (rule old)
  next
    case False
    with that have "l = Locals u (length fs) c t" and "ph' = ph"
      by (simp_all add: nth_append)
    with new show ?thesis by simp
  qed
  from assms(1) fresh tab calls show ?thesis
    by (simp add: inv_core_def AList.distinct_update distinct_snd_update)
qed

lemma inv_core_append:
  assumes "inv_core pe fs as" and "\<And>l ph. a \<noteq> Send l ph"
  shows "inv_core pe fs (as @ [a])"
  using assms by (auto simp: inv_core_def nth_append)

lemma inv_core_settle:
  assumes "inv_core pe fs as" and "\<And>l ph. a = Send l ph \<Longrightarrow> call_ok pe fs l ph"
  shows "inv_core pe fs (as[p := a])"
proof -
  have "call_ok pe fs l ph" if "q < length as" and "as[p := a] ! q = Send l ph" for q l ph
  proof (cases "q = p")
    case True
    with that have "a = Send l ph"
      by simp
    then show ?thesis
      by (rule assms(2))
  next
    case False
    with that have "as ! q = Send l ph"
      by simp
    with assms(1) that(1) show ?thesis
      by (simp add: inv_core_def)
  qed
  with assms(1) show ?thesis
    by (simp add: inv_core_def)
qed

subsection \<open>The invariant under each block\<close>

lemma inv_fields [simp]:
  "inv (s\<lparr>connected := b\<rparr>) = inv s"
  "inv (s\<lparr>last_seen := x\<rparr>) = inv s"
  "inv (s\<lparr>closed_writers := cw\<rparr>) = inv s"
  "inv (s\<lparr>nconns := n\<rparr>) = inv s"
  "inv (s\<lparr>sent := w\<rparr>) = inv s"
  "inv (s\<lparr>server := sv\<rparr>) = inv s"
  "inv (s\<lparr>listening := ls\<rparr>) = inv s"
  "inv (s\<lparr>read_task := rt\<rparr>) = inv s"
  by (simp_all add: inv_def)

lemma inv_tasks_update [simp]: "inv (s\<lparr>tasks := (tasks s)[t := x]\<rparr>) = inv s"
  by (simp add: inv_def)

lemma inv_cancel_read_task [simp]: "inv (cancel_read_task s) = inv s"
  by (simp add: cancel_read_task_def split: option.split)

lemma acts_cancel_read_task [simp]: "acts (cancel_read_task s) = acts s"
  by (simp add: cancel_read_task_def split: option.split)

lemma inv_fail_pending: "inv s \<Longrightarrow> inv (fail_pending m s)"
  by (auto simp: inv_def fail_pending_def intro: inv_core_fail)

lemma acts_fail_pending [simp]: "acts (fail_pending m s) = acts s"
  by (simp add: fail_pending_def)

lemma inv_start: "inv s \<Longrightarrow> inv (fst (start bound s))"
  by (simp add: start_def split: sum.split)

lemma inv_handle_connection_finish: "inv s \<Longrightarrow> inv (handle_connection_finish c now s)"
  by (simp add: inv_def handle_connection_finish_def)

lemma acts_handle_connection_finish [simp]:
  "acts (handle_connection_finish c now s) = acts s"
  by (simp add: handle_connection_finish_def)

lemma inv_handle_connection: "inv s \<Longrightarrow> inv (fst (handle_connection c now s))"
  by (simp add: handle_connection_def inv_handle_connection_finish Let_def split: option.split)

lemma acts_handle_connection [simp]: "acts (fst (handle_connection c now s)) = acts s"
  by (simp add: handle_connection_def Let_def split: option.split)

lemma snd_handle_connection: "snd (handle_connection c now s) \<noteq> Send l ph"
  by (simp add: handle_connection_def Let_def split: option.split)

lemma inv_read_loop_finally: "inv s \<Longrightarrow> inv (read_loop_finally t s)"
proof -
  assume "inv s"
  then have "inv (fail_pending ''EA disconnected'' (s\<lparr>connected := False\<rparr>))"
    by (simp add: inv_fail_pending)
  then show ?thesis
    by (simp add: read_loop_finally_def Let_def)
qed

lemma acts_read_loop_finally [simp]: "acts (read_loop_finally t s) = acts s"
  by (simp add: read_loop_finally_def Let_def)

lemma inv_read_loop_next: "inv s \<Longrightarrow> inv (read_loop_next t s)"
  by (simp add: read_loop_next_def inv_read_loop_finally split: option.split)

lemma acts_read_loop_next [simp]: "acts (read_loop_next t s) = acts s"
  by (simp add: read_loop_next_def split: option.split)

lemma inv_read_loop_begin: "inv s \<Longrightarrow> inv (read_loop_begin t s)"
  by (simp add: read_loop_begin_def inv_read_loop_next)

lemma acts_read_loop_begin [simp]: "acts (read_loop_begin t s) = acts s"
  by (simp add: read_loop_begin_def)

lemma inv_read_loop_header: "inv s \<Longrightarrow> inv (read_loop_header t header s)"
  by (simp add: read_loop_header_def inv_read_loop_finally split: option.split)

lemma acts_read_loop_header [simp]: "acts (read_loop_header t header s) = acts s"
  by (simp add: read_loop_header_def split: option.split)

lemma read_loop_route_cases:
  assumes "read_loop_route msg s = Some s1"
  obtains (unmatched) "s1 = s"
  | (matched) kvs k f where "msg = JObj kvs" and "dict_get kvs ''id'' = JStr k"
      and "map_of (pending s) k = Some f"
      and "s1 = s\<lparr>pending := AList.delete k (pending s),
                   futs := resolve f (FResult msg) (futs s)\<rparr>"
proof (cases msg)
  case (JObj kvs)
  show ?thesis
  proof (cases "dict_get kvs ''id''")
    case (JStr k)
    show ?thesis
    proof (cases "map_of (pending s) k")
      case None
      with assms JObj JStr have "s1 = s"
        by (simp add: read_loop_route_def split: if_splits)
      then show ?thesis by (rule unmatched)
    next
      case (Some f)
      show ?thesis
      proof (cases "k = []")
        case True
        with assms JObj JStr have "s1 = s"
          by (simp add: read_loop_route_def)
        then show ?thesis by (rule unmatched)
      next
        case False
        with assms JObj JStr Some
        have "s1 = s\<lparr>pending := AList.delete k (pending s),
                        futs := resolve f (FResult msg) (futs s)\<rparr>"
          by (simp add: read_loop_route_def)
        with JObj JStr Some show ?thesis by (rule matched)
      qed
    qed
  next
    case JNull
    with assms JObj have "s1 = s" by (simp add: read_loop_route_def)
    then show ?thesis by (rule unmatched)
  next
    case (JBool b)
    with assms JObj have "s1 = s" by (simp add: read_loop_route_def split: if_splits)
    then show ?thesis by (rule unmatched)
  next
    case (JInt i)
    with assms JObj have "s1 = s" by (simp add: read_loop_route_def split: if_splits)
    then show ?thesis by (rule unmatched)
  next
    case (JFloat x)
    with assms JObj have "s1 = s" by (simp add: read_loop_route_def split: if_splits)
    then show ?thesis by (rule unmatched)
  next
    case (JArr xs)
    with assms JObj have "s1 = s" by (simp add: read_loop_route_def split: if_splits)
    then show ?thesis by (rule unmatched)
  next
    case (JObj ys)
    with assms \<open>msg = JObj kvs\<close> have "s1 = s"
      by (simp add: read_loop_route_def split: if_splits)
    then show ?thesis by (rule unmatched)
  qed
qed (use assms in \<open>simp_all add: read_loop_route_def\<close>)

lemma inv_read_loop_route:
  assumes "inv s" and "read_loop_route msg s = Some s1"
  shows "inv s1"
  using assms(2)
proof (cases rule: read_loop_route_cases)
  case unmatched
  with assms(1) show ?thesis by simp
next
  case (matched kvs k f)
  then have "msg_id msg = JStr k"
    by (simp add: msg_id_def)
  with assms(1) matched show ?thesis
    by (simp add: inv_def inv_core_route)
qed

lemma acts_read_loop_route: "read_loop_route msg s = Some s1 \<Longrightarrow> acts s1 = acts s"
  by (erule read_loop_route_cases) simp_all

lemma inv_read_loop_body:
  assumes "inv s"
  shows "inv (read_loop_body loads t data now s)"
proof (cases "loads data")
  case (Inl e)
  with assms show ?thesis
    by (simp add: read_loop_body_def inv_read_loop_finally)
next
  case (Inr msg)
  have i: "inv (s\<lparr>last_seen := Some now\<rparr>)"
    using assms by simp
  show ?thesis
  proof (cases "read_loop_route msg (s\<lparr>last_seen := Some now\<rparr>)")
    case None
    with Inr i show ?thesis
      by (simp add: read_loop_body_def inv_read_loop_finally)
  next
    case (Some s1)
    with i have "inv s1"
      by (rule inv_read_loop_route)
    then have "inv (read_loop_next t s1)"
      by (rule inv_read_loop_next)
    with Inr Some show ?thesis
      by (simp add: read_loop_body_def)
  qed
qed

lemma acts_read_loop_body [simp]: "acts (read_loop_body loads t data now s) = acts s"
proof (cases "loads data")
  case (Inl e)
  then show ?thesis
    by (simp add: read_loop_body_def)
next
  case (Inr msg)
  show ?thesis
  proof (cases "read_loop_route msg (s\<lparr>last_seen := Some now\<rparr>)")
    case None
    with Inr show ?thesis
      by (simp add: read_loop_body_def)
  next
    case (Some s1)
    then have "acts s1 = acts (s\<lparr>last_seen := Some now\<rparr>)"
      by (rule acts_read_loop_route)
    with Inr Some show ?thesis
      by (simp add: read_loop_body_def)
  qed
qed

lemma inv_stop_finish: "inv s \<Longrightarrow> inv (stop_finish s)"
  by (simp add: stop_finish_def inv_fail_pending)

lemma acts_stop_finish [simp]: "acts (stop_finish s) = acts s"
  by (simp add: stop_finish_def)

lemma inv_stop_server: "inv s \<Longrightarrow> inv (fst (stop_server s))"
  by (simp add: stop_server_def inv_stop_finish split: option.split)

lemma acts_stop_server [simp]: "acts (fst (stop_server s)) = acts s"
  by (simp add: stop_server_def split: option.split)

lemma snd_stop_server: "snd (stop_server s) \<noteq> Send l ph"
  by (simp add: stop_server_def split: option.split)

lemma inv_stop: "inv s \<Longrightarrow> inv (fst (stop s))"
  by (simp add: stop_def Let_def inv_stop_server split: option.split)

lemma acts_stop [simp]: "acts (fst (stop s)) = acts s"
  by (simp add: stop_def Let_def split: option.split)

lemma snd_stop: "snd (stop s) \<noteq> Send l ph"
  by (simp add: stop_def Let_def snd_stop_server split: option.split)

lemma inv_spawn:
  assumes "inv (fst r)" and "\<And>l ph. snd r \<noteq> Send l ph"
  shows "inv (spawn r)"
proof -
  from assms(1) have "inv_core (pending (fst r)) (futs (fst r)) (acts (fst r))"
    by (simp add: inv_def)
  then have "inv_core (pending (fst r)) (futs (fst r)) (acts (fst r) @ [snd r])"
    using assms(2) by (rule inv_core_append)
  with assms(1) show ?thesis
    by (simp add: inv_def spawn_def)
qed

lemma inv_settle_plain:
  assumes "inv (fst r)" and "\<And>l ph. snd r \<noteq> Send l ph"
  shows "inv (settle p r)"
proof -
  from assms(1) have "inv_core (pending (fst r)) (futs (fst r)) (acts (fst r))"
    by (simp add: inv_def)
  then have "inv_core (pending (fst r)) (futs (fst r)) ((acts (fst r))[p := snd r])"
    by (rule inv_core_settle) (simp add: assms(2))
  with assms(1) show ?thesis
    by (simp add: inv_def settle_def)
qed

lemma inv_settle_send:
  assumes "send_ok s l r"
  shows "inv (settle p r)"
proof -
  from assms obtain ph where r: "snd r = Send l ph"
    and ok: "call_ok (pending (fst r)) (futs (fst r)) l ph" and i: "inv (fst r)"
    by (auto simp: send_ok_def)
  from i have "inv_core (pending (fst r)) (futs (fst r)) (acts (fst r))"
    by (simp add: inv_def)
  then have "inv_core (pending (fst r)) (futs (fst r)) ((acts (fst r))[p := snd r])"
    by (rule inv_core_settle) (use ok r in simp)
  with i show ?thesis
    by (simp add: inv_def settle_def)
qed

lemma inv_pop: "inv s \<Longrightarrow> inv (s\<lparr>pending := AList.delete k (pending s)\<rparr>)"
  by (auto simp: inv_def intro: inv_core_pop)

lemma inv_cancel_fut: "inv s \<Longrightarrow> inv (s\<lparr>futs := resolve f FCancelled (futs s)\<rparr>)"
  by (auto simp: inv_def intro: inv_core_cancel)

lemma call_ok_cancel:
  "call_ok pe fs l ph \<Longrightarrow> call_ok pe (resolve f FCancelled fs) l ph"
  by (auto simp: call_ok_def nth_resolve)

lemma send_ok_base: "send_ok s1 l r \<Longrightarrow> acts s1 = acts s \<Longrightarrow> send_ok s l r"
  by (simp add: send_ok_def)

lemma send_command_except_cases:
  obtains (kept) x where "send_command_except l e s = (s, Send l (Ended (Raised x)))"
  | (popped) x where "send_command_except l e s
      = (s\<lparr>pending := AList.delete (req_id l) (pending s)\<rparr>, Send l (Ended (Raised x)))"
  by (cases "is_TimeoutError e"; cases "is_Exception e")
    (simp_all add: send_command_except_def)

lemma send_ok_except:
  assumes "inv s" and "call_ok (pending s) (futs s) l ph"
  shows "send_ok s l (send_command_except l e s)"
proof -
  have raised: "call_ok pe (futs s) l (Ended (Raised x))" if "call_ok pe (futs s) l ph" for pe x
    using that by (rule call_ok_phase) simp
  have kept: "call_ok (pending s) (futs s) l (Ended (Raised x))" for x
    using assms(2) by (rule raised)
  have popped: "call_ok (AList.delete (req_id l) (pending s)) (futs s) l (Ended (Raised x))" for x
    using assms(2) by (intro raised call_ok_pop)
  show ?thesis
    using assms(1) kept popped by (simp add: send_ok_def send_command_except_def inv_pop)
qed

lemma send_ok_write:
  assumes "inv s" and "call_ok (pending s) (futs s) l ph"
  shows "send_ok s l (send_command_write l data drained s)"
proof (cases "writer s")
  case None
  with send_ok_except [OF assms] show ?thesis
    by (simp add: send_command_write_def)
next
  case (Some w)
  let ?s1 = "s\<lparr>sent := sent s @ [(w, data)]\<rparr>"
  have i1: "inv ?s1" and c1: "call_ok (pending ?s1) (futs ?s1) l ph"
    using assms by simp_all
  show ?thesis
  proof (cases drained)
    case None
    have "call_ok (pending s) (futs s) l AtWait"
      using assms(2) by (rule call_ok_phase) simp
    with assms(1) Some None show ?thesis
      by (simp add: send_command_write_def send_ok_def)
  next
    case (Some e)
    have "send_ok ?s1 l (send_command_except l e ?s1)"
      using i1 c1 by (rule send_ok_except)
    then have "send_ok s l (send_command_except l e ?s1)"
      by (rule send_ok_base) simp
    with \<open>writer s = Some w\<close> Some show ?thesis
      by (simp add: send_command_write_def)
  qed
qed

lemma send_ok_timeout:
  assumes "inv s" and "call_ok (pending s) (futs s) l ph"
  shows "send_ok s l (send_command_timeout l s)"
proof -
  have "call_ok (pending s) (futs s) l TimedOut"
    using assms(2) by (rule call_ok_phase) simp
  then have "call_ok (pending s) (resolve (fut_of l) FCancelled (futs s)) l TimedOut"
    by (rule call_ok_cancel)
  with assms(1) show ?thesis
    by (simp add: send_ok_def send_command_timeout_def inv_cancel_fut)
qed

lemma send_ok_cancel:
  assumes "inv s" and "call_ok (pending s) (futs s) l ph"
    and "send_command_cancel l ph s = Some r"
  shows "send_ok s l r"
proof (cases ph)
  case (AtWrite data)
  with assms(3) have "r = send_command_except l CancelledError s"
    by (simp add: send_command_cancel_def)
  with send_ok_except [OF assms(1,2)] show ?thesis
    by simp
next
  case AtWait
  let ?s1 = "s\<lparr>futs := resolve (fut_of l) FCancelled (futs s)\<rparr>"
  from AtWait assms(3) have r: "r = send_command_except l CancelledError ?s1"
    by (simp add: send_command_cancel_def)
  have "inv ?s1"
    using assms(1) by (rule inv_cancel_fut)
  moreover have "call_ok (pending ?s1) (futs ?s1) l ph"
    using assms(2) by (simp add: call_ok_cancel)
  ultimately have "send_ok ?s1 l (send_command_except l CancelledError ?s1)"
    by (rule send_ok_except)
  then have "send_ok s l (send_command_except l CancelledError ?s1)"
    by (rule send_ok_base) simp
  with r show ?thesis
    by simp
next
  case TimedOut
  with assms(3) show ?thesis by (simp add: send_command_cancel_def)
next
  case (Ended x)
  with assms(3) show ?thesis by (simp add: send_command_cancel_def)
qed

lemma send_ok_resume:
  assumes "inv s" and "call_ok (pending s) (futs s) l ph"
    and "send_command_resume l ph s = Some r"
  shows "send_ok s l r"
proof (cases ph)
  case (AtWrite data)
  with assms(3) show ?thesis by (simp add: send_command_resume_def)
next
  case AtWait
  show ?thesis
  proof (cases "futs s ! fut_of l")
    case FPending
    with AtWait assms(3) show ?thesis
      by (simp add: send_command_resume_def split: if_splits)
  next
    case (FResult msg)
    with AtWait assms(3) have r: "r = (s, Send l (Ended (Returned msg)))"
      by (simp add: send_command_resume_def split: if_splits)
    from assms(2) FResult have "msg_id msg = JStr (req_id l)"
      by (simp add: call_ok_def)
    with assms(2) have "call_ok (pending s) (futs s) l (Ended (Returned msg))"
      by (simp add: call_ok_def)
    with assms(1) r show ?thesis
      by (simp add: send_ok_def)
  next
    case (FException e)
    with AtWait assms(3) have "r = send_command_except l e s"
      by (simp add: send_command_resume_def split: if_splits)
    with send_ok_except [OF assms(1,2)] show ?thesis
      by simp
  next
    case FCancelled
    with AtWait assms(3) have "r = send_command_except l CancelledError s"
      by (simp add: send_command_resume_def split: if_splits)
    with send_ok_except [OF assms(1,2)] show ?thesis
      by simp
  qed
next
  case TimedOut
  with assms(3) have "r = send_command_except l AsyncioTimeoutError s"
    by (simp add: send_command_resume_def)
  with send_ok_except [OF assms(1,2)] show ?thesis
    by simp
next
  case (Ended x)
  with assms(3) show ?thesis by (simp add: send_command_resume_def)
qed

lemma inv_send_command:
  assumes "inv s"
  shows "inv (spawn (send_command dumps u c ps tmo s))"
proof (cases "\<not> connected s \<or> writer s = None")
  case True
  then have "send_command dumps u c ps tmo s
      = (s, Finished (Raised (ConnectionError ''EA not connected'')))"
    by (auto simp: send_command_def)
  with assms show ?thesis
    by (simp add: inv_spawn)
next
  case False
  let ?l = "Locals u (length (futs s)) c tmo"
  let ?pe = "AList.update u (length (futs s)) (pending s)"
  let ?fs = "futs s @ [FPending]"
  let ?s1 = "s\<lparr>futs := ?fs, pending := ?pe\<rparr>"
  have core: "inv_core (pending s) (futs s) (acts s)"
    and rw: "tasks s \<noteq> [] \<longrightarrow> reader s \<noteq> None \<and> writer s \<noteq> None"
    using assms by (simp_all add: inv_def)
  have reg: "inv_core ?pe ?fs (acts s @ [Send ?l ph])" if "\<And>m. ph \<noteq> Ended (Returned m)" for ph
    using core that by (rule inv_core_register)
  from False have cn: "connected s" and wr: "writer s \<noteq> None"
    by auto
  show ?thesis
  proof (cases "send_command_frame dumps (request_message u c ps)")
    case (Inr data)
    then have "send_command dumps u c ps tmo s = (?s1, Send ?l (AtWrite data))"
      by (simp add: send_command_def Let_def cn wr)
    with reg [of "AtWrite data"] rw show ?thesis
      by (simp add: inv_def spawn_def)
  next
    case (Inl e)
    then have sc: "send_command dumps u c ps tmo s = send_command_except ?l e ?s1"
      by (simp add: send_command_def Let_def cn wr)
    show ?thesis
    proof (cases rule: send_command_except_cases [of ?l e ?s1])
      case (kept x)
      with sc reg [of "Ended (Raised x)"] rw show ?thesis
        by (simp add: inv_def spawn_def)
    next
      case (popped x)
      have "inv_core (AList.delete u ?pe) ?fs (acts s @ [Send ?l (Ended (Raised x))])"
        using reg [of "Ended (Raised x)"] by (intro inv_core_pop) simp
      with sc popped rw show ?thesis
        by (simp add: inv_def spawn_def)
    qed
  qed
qed

lemma act_call_ok:
  "inv s \<Longrightarrow> p < length (acts s) \<Longrightarrow> acts s ! p = Send l ph
     \<Longrightarrow> call_ok (pending s) (futs s) l ph"
  by (simp add: inv_def inv_core_def)


subsection \<open>What each event does\<close>

lemma step_Accept:
  assumes "step (Accept now) s = Some s'"
  shows "s' = spawn (handle_connection (nconns s) now (s\<lparr>nconns := Suc (nconns s)\<rparr>))"
  using assms by (simp split: if_splits)

lemma step_HandlerResume:
  assumes "step (HandlerResume p now) s = Some s'"
  obtains c where "p < length (acts s)" and "acts s ! p = HandleWait c"
    and "s' = settle p (handle_connection_finish c now s, Finished ReturnedNone)"
  using assms by (cases "acts s ! p") (simp_all split: if_splits)

lemma step_StopResume:
  assumes "step (StopResume p) s = Some s'"
  obtains (writer) "p < length (acts s)" and "acts s ! p = StopWaitWriter"
      and "s' = settle p (stop_server s)"
  | (server) "p < length (acts s)" and "acts s ! p = StopWaitServer"
      and "s' = settle p (stop_finish s, Finished ReturnedNone)"
  using assms by (cases "acts s ! p") (simp_all split: if_splits)

lemma step_TaskBegin:
  assumes "step (TaskBegin t) s = Some s'"
  shows "t < length (tasks s) \<and> fst (tasks s ! t) = TCreated \<and> s' = read_loop_begin t s"
  using assms by (simp split: if_splits)

lemma step_TaskHeader:
  assumes "step (TaskHeader t header) s = Some s'"
  obtains r where "t < length (tasks s)" and "length header = 4"
    and "tasks s ! t = (TReadHeader r, False)" and "s' = read_loop_header t header s"
  using assms
  by (cases "fst (tasks s ! t)"; cases "tasks s ! t") (simp_all split: if_splits)

lemma step_TaskBody:
  assumes "step (TaskBody t data loads now) s = Some s'"
  obtains r where "t < length (tasks s)"
    and "tasks s ! t = (TReadBody r (length data), False)"
    and "s' = read_loop_body loads t data now s"
  using assms
  by (cases "fst (tasks s ! t)"; cases "tasks s ! t") (auto split: if_splits)

lemma step_TaskRaise:
  assumes "step (TaskRaise t x) s = Some s'"
  shows "t < length (tasks s) \<and> reading (fst (tasks s ! t)) \<and> s' = read_loop_finally t s"
  using assms by (simp split: if_splits)

lemma step_SendWrite:
  assumes "step (SendWrite p drained) s = Some s'"
  obtains l data where "p < length (acts s)" and "acts s ! p = Send l (AtWrite data)"
    and "s' = settle p (send_command_write l data drained s)"
proof (cases "acts s ! p")
  case (Send l ph)
  with assms that show ?thesis
    by (cases ph) (simp_all split: if_splits)
qed (use assms in \<open>simp_all split: if_splits\<close>)

lemma step_SendTimeout:
  assumes "step (SendTimeout p) s = Some s'"
  obtains l where "p < length (acts s)" and "acts s ! p = Send l AtWait"
    and "fut_of l < length (futs s)" and "futs s ! fut_of l = FPending"
    and "s' = settle p (send_command_timeout l s)"
proof (cases "acts s ! p")
  case (Send l ph)
  with assms that show ?thesis
    by (cases ph) (simp_all split: if_splits)
qed (use assms in \<open>simp_all split: if_splits\<close>)

lemma step_SendCancel:
  assumes "step (SendCancel p) s = Some s'"
  obtains l ph r where "p < length (acts s)" and "acts s ! p = Send l ph"
    and "send_command_cancel l ph s = Some r" and "s' = settle p r"
proof (cases "acts s ! p")
  case (Send l ph)
  with assms that show ?thesis
    by (auto split: if_splits)
qed (use assms in \<open>simp_all split: if_splits\<close>)

lemma step_SendResume:
  assumes "step (SendResume p) s = Some s'"
  obtains l ph r where "p < length (acts s)" and "acts s ! p = Send l ph"
    and "send_command_resume l ph s = Some r" and "s' = settle p r"
proof (cases "acts s ! p")
  case (Send l ph)
  with assms that show ?thesis
    by (auto split: if_splits)
qed (use assms in \<open>simp_all split: if_splits\<close>)


lemma step_cases [consumes 1, case_names Start Accept HandlerResume StopCall StopWriter
    StopServer TaskBegin TaskHeader TaskBody TaskRaise SendCall SendWrite SendTimeout
    SendCancel SendResume]:
  assumes "step e s = Some s'"
  obtains bound where "e = Start bound" and "s' = fst (start bound s)"
  | now where "e = Accept now"
      and "s' = spawn (handle_connection (nconns s) now (s\<lparr>nconns := Suc (nconns s)\<rparr>))"
  | p now c where "e = HandlerResume p now" and "p < length (acts s)"
      and "acts s ! p = HandleWait c"
      and "s' = settle p (handle_connection_finish c now s, Finished ReturnedNone)"
  | "e = StopCall" and "s' = spawn (stop s)"
  | p where "e = StopResume p" and "p < length (acts s)" and "acts s ! p = StopWaitWriter"
      and "s' = settle p (stop_server s)"
  | p where "e = StopResume p" and "p < length (acts s)" and "acts s ! p = StopWaitServer"
      and "s' = settle p (stop_finish s, Finished ReturnedNone)"
  | t where "e = TaskBegin t" and "t < length (tasks s)" and "s' = read_loop_begin t s"
  | t header r where "e = TaskHeader t header" and "t < length (tasks s)"
      and "tasks s ! t = (TReadHeader r, False)" and "s' = read_loop_header t header s"
  | t data loads now r where "e = TaskBody t data loads now" and "t < length (tasks s)"
      and "tasks s ! t = (TReadBody r (length data), False)"
      and "s' = read_loop_body loads t data now s"
  | t x where "e = TaskRaise t x" and "t < length (tasks s)"
      and "reading (fst (tasks s ! t))" and "s' = read_loop_finally t s"
  | dumps u c ps tmo where "e = SendCall dumps u c ps tmo"
      and "s' = spawn (send_command dumps u c ps tmo s)"
  | p drained l data where "e = SendWrite p drained" and "p < length (acts s)"
      and "acts s ! p = Send l (AtWrite data)"
      and "s' = settle p (send_command_write l data drained s)"
  | p l where "e = SendTimeout p" and "p < length (acts s)" and "acts s ! p = Send l AtWait"
      and "fut_of l < length (futs s)" and "futs s ! fut_of l = FPending"
      and "s' = settle p (send_command_timeout l s)"
  | p l ph r where "e = SendCancel p" and "p < length (acts s)" and "acts s ! p = Send l ph"
      and "send_command_cancel l ph s = Some r" and "s' = settle p r"
  | p l ph r where "e = SendResume p" and "p < length (acts s)" and "acts s ! p = Send l ph"
      and "send_command_resume l ph s = Some r" and "s' = settle p r"
proof (cases e)
  case (Start bound)
  from assms have "s' = fst (start bound s)"
    unfolding Start by simp
  with Start that(1) show ?thesis by blast
next
  case (Accept now)
  from assms have "step (Accept now) s = Some s'"
    unfolding Accept .
  from step_Accept [OF this] Accept that(2) show ?thesis by blast
next
  case (HandlerResume p now)
  from assms have "step (HandlerResume p now) s = Some s'"
    unfolding HandlerResume .
  then show ?thesis
    by (rule step_HandlerResume) (use HandlerResume that(3) in blast)
next
  case StopCall
  from assms have "s' = spawn (stop s)"
    unfolding StopCall by simp
  with StopCall that(4) show ?thesis by blast
next
  case (StopResume p)
  from assms have "step (StopResume p) s = Some s'"
    unfolding StopResume .
  then show ?thesis
    by (cases rule: step_StopResume) (use StopResume that(5,6) in blast)+
next
  case (TaskBegin t)
  from assms have "step (TaskBegin t) s = Some s'"
    unfolding TaskBegin .
  from step_TaskBegin [OF this] TaskBegin that(7) show ?thesis by blast
next
  case (TaskHeader t header)
  from assms have "step (TaskHeader t header) s = Some s'"
    unfolding TaskHeader .
  then show ?thesis
    by (rule step_TaskHeader) (use TaskHeader that(8) in blast)
next
  case (TaskBody t data loads now)
  from assms have "step (TaskBody t data loads now) s = Some s'"
    unfolding TaskBody .
  then show ?thesis
    by (rule step_TaskBody) (use TaskBody that(9) in blast)
next
  case (TaskRaise t x)
  from assms have "step (TaskRaise t x) s = Some s'"
    unfolding TaskRaise .
  from step_TaskRaise [OF this] TaskRaise that(10) show ?thesis by blast
next
  case (SendCall dumps u c ps tmo)
  from assms have "s' = spawn (send_command dumps u c ps tmo s)"
    unfolding SendCall by simp
  with SendCall that(11) show ?thesis by blast
next
  case (SendWrite p drained)
  from assms have "step (SendWrite p drained) s = Some s'"
    unfolding SendWrite .
  then show ?thesis
    by (rule step_SendWrite) (use SendWrite that(12) in blast)
next
  case (SendTimeout p)
  from assms have "step (SendTimeout p) s = Some s'"
    unfolding SendTimeout .
  then show ?thesis
    by (rule step_SendTimeout) (use SendTimeout that(13) in blast)
next
  case (SendCancel p)
  from assms have "step (SendCancel p) s = Some s'"
    unfolding SendCancel .
  then show ?thesis
    by (rule step_SendCancel) (use SendCancel that(14) in blast)
next
  case (SendResume p)
  from assms have "step (SendResume p) s = Some s'"
    unfolding SendResume .
  then show ?thesis
    by (rule step_SendResume) (use SendResume that(15) in blast)
qed

subsection \<open>Every step keeps the invariant\<close>

lemma step_inv:
  assumes "inv s" and "step e s = Some s'"
  shows "inv s'"
  using assms(2)
proof (cases rule: step_cases)
  case (Start bound)
  with assms(1) show ?thesis
    by (simp add: inv_start)
next
  case (Accept now)
  have "inv (spawn (handle_connection (nconns s) now (s\<lparr>nconns := Suc (nconns s)\<rparr>)))"
    by (rule inv_spawn) (simp_all add: assms(1) inv_handle_connection snd_handle_connection)
  with Accept show ?thesis
    by simp
next
  case (HandlerResume p now c)
  have "inv (settle p (handle_connection_finish c now s, Finished ReturnedNone))"
    by (rule inv_settle_plain) (simp_all add: assms(1) inv_handle_connection_finish)
  with HandlerResume show ?thesis
    by simp
next
  case StopCall
  have "inv (spawn (stop s))"
    by (rule inv_spawn) (simp_all add: assms(1) inv_stop snd_stop)
  with StopCall show ?thesis
    by simp
next
  case (StopWriter p)
  have "inv (settle p (stop_server s))"
    by (rule inv_settle_plain) (simp_all add: assms(1) inv_stop_server snd_stop_server)
  with StopWriter show ?thesis
    by simp
next
  case (StopServer p)
  have "inv (settle p (stop_finish s, Finished ReturnedNone))"
    by (rule inv_settle_plain) (simp_all add: assms(1) inv_stop_finish)
  with StopServer show ?thesis
    by simp
next
  case (TaskBegin t)
  with assms(1) show ?thesis
    by (simp add: inv_read_loop_begin)
next
  case (TaskHeader t header r)
  with assms(1) show ?thesis
    by (simp add: inv_read_loop_header)
next
  case (TaskBody t data loads now r)
  with assms(1) show ?thesis
    by (simp add: inv_read_loop_body)
next
  case (TaskRaise t x)
  with assms(1) show ?thesis
    by (simp add: inv_read_loop_finally)
next
  case (SendCall dumps u c ps tmo)
  with assms(1) show ?thesis
    by (simp add: inv_send_command)
next
  case (SendWrite p drained l data)
  from assms(1) SendWrite(2,3) have "call_ok (pending s) (futs s) l (AtWrite data)"
    by (rule act_call_ok)
  with assms(1) have "send_ok s l (send_command_write l data drained s)"
    by (rule send_ok_write)
  then have "inv (settle p (send_command_write l data drained s))"
    by (rule inv_settle_send)
  with SendWrite show ?thesis
    by simp
next
  case (SendTimeout p l)
  from assms(1) SendTimeout(2,3) have "call_ok (pending s) (futs s) l AtWait"
    by (rule act_call_ok)
  with assms(1) have "send_ok s l (send_command_timeout l s)"
    by (rule send_ok_timeout)
  then have "inv (settle p (send_command_timeout l s))"
    by (rule inv_settle_send)
  with SendTimeout show ?thesis
    by simp
next
  case (SendCancel p l ph r)
  from assms(1) SendCancel(2,3) have "call_ok (pending s) (futs s) l ph"
    by (rule act_call_ok)
  with assms(1) have "send_ok s l r"
    using SendCancel(4) by (rule send_ok_cancel)
  then have "inv (settle p r)"
    by (rule inv_settle_send)
  with SendCancel show ?thesis
    by simp
next
  case (SendResume p l ph r)
  from assms(1) SendResume(2,3) have "call_ok (pending s) (futs s) l ph"
    by (rule act_call_ok)
  with assms(1) have "send_ok s l r"
    using SendResume(4) by (rule send_ok_resume)
  then have "inv (settle p r)"
    by (rule inv_settle_send)
  with SendResume show ?thesis
    by simp
qed

lemma inv_init: "inv init"
  by (simp add: inv_def inv_core_def init_def)

lemma reachable_inv: "reachable s \<Longrightarrow> inv s"
  by (induction rule: reachable.induct) (auto intro: inv_init step_inv)

section \<open>Runs, ids and single assignment\<close>

subsection \<open>Runs\<close>

lemma run_reachable: "reachable s \<Longrightarrow> run es s = Some s' \<Longrightarrow> reachable s'"
proof (induction es arbitrary: s)
  case Nil
  then show ?case by simp
next
  case (Cons e es)
  from Cons.prems(2) obtain s1 where s1: "step e s = Some s1" and rest: "run es s1 = Some s'"
    by (auto split: option.splits)
  from Cons.prems(1) s1 have "reachable s1"
    by (rule reachable_step)
  then show ?case
    using rest by (rule Cons.IH)
qed

lemma run_init_reachable: "run es init = Some s \<Longrightarrow> reachable s"
  using reachable_init by (rule run_reachable)

subsection \<open>The ids of the calls\<close>

lemma call_ids_append: "call_ids (as @ bs) = call_ids as @ call_ids bs"
  by (induction as rule: call_ids.induct) simp_all

lemma call_ids_update:
  "p < length as \<Longrightarrow> call_ids [as ! p] = call_ids [a] \<Longrightarrow> call_ids (as[p := a]) = call_ids as"
proof (induction as arbitrary: p)
  case Nil
  then show ?case by simp
next
  case (Cons b as)
  show ?case
  proof (cases p)
    case 0
    with Cons.prems(2) have "call_ids [b] = call_ids [a]"
      by simp
    then have "call_ids ([a] @ as) = call_ids ([b] @ as)"
      unfolding call_ids_append by simp
    with 0 show ?thesis
      by simp
  next
    case (Suc q)
    with Cons.prems have "call_ids (as[q := a]) = call_ids as"
      by (intro Cons.IH) simp_all
    then have "call_ids ([b] @ as[q := a]) = call_ids ([b] @ as)"
      unfolding call_ids_append by simp
    with Suc show ?thesis
      by simp
  qed
qed

lemma call_ids_spawn_plain:
  assumes "\<And>l ph. snd r \<noteq> Send l ph"
  shows "call_ids (acts (spawn r)) = call_ids (acts (fst r))"
proof -
  have "call_ids [snd r] = []"
    using assms by (cases "snd r") auto
  then show ?thesis
    by (simp add: spawn_def call_ids_append)
qed

lemma call_ids_settle_plain:
  assumes "p < length (acts (fst r))" and "\<And>l ph. acts (fst r) ! p \<noteq> Send l ph"
    and "\<And>l ph. snd r \<noteq> Send l ph"
  shows "call_ids (acts (settle p r)) = call_ids (acts (fst r))"
proof -
  have "call_ids [acts (fst r) ! p] = []"
    using assms(2) by (cases "acts (fst r) ! p") auto
  moreover have "call_ids [snd r] = []"
    using assms(3) by (cases "snd r") auto
  ultimately show ?thesis
    using assms(1) by (simp add: settle_def call_ids_update)
qed

lemma call_ids_settle_send:
  assumes "p < length (acts s)" and "acts s ! p = Send l ph" and "send_ok s l r"
  shows "call_ids (acts (settle p r)) = call_ids (acts s)"
proof -
  from assms(3) obtain ph' where "snd r = Send l ph'" and "acts (fst r) = acts s"
    by (auto simp: send_ok_def)
  with assms(1,2) show ?thesis
    by (simp add: settle_def call_ids_update)
qed

lemma send_command_shape:
  "acts (fst (send_command dumps u c ps tmo s)) = acts s
   \<and> (snd (send_command dumps u c ps tmo s) = Finished (Raised (ConnectionError ''EA not connected''))
      \<or> (\<exists>ph. snd (send_command dumps u c ps tmo s) = Send (Locals u (length (futs s)) c tmo) ph))"
proof (cases "\<not> connected s \<or> writer s = None")
  case True
  then have "send_command dumps u c ps tmo s
      = (s, Finished (Raised (ConnectionError ''EA not connected'')))"
    by (auto simp: send_command_def)
  then show ?thesis
    by simp
next
  case False
  then have cn: "connected s" and wr: "writer s \<noteq> None"
    by auto
  let ?l = "Locals u (length (futs s)) c tmo"
  let ?s1 = "s\<lparr>futs := futs s @ [FPending],
                pending := AList.update u (length (futs s)) (pending s)\<rparr>"
  show ?thesis
  proof (cases "send_command_frame dumps (request_message u c ps)")
    case (Inr data)
    then have "send_command dumps u c ps tmo s = (?s1, Send ?l (AtWrite data))"
      by (simp add: send_command_def Let_def cn wr)
    then show ?thesis
      by simp
  next
    case (Inl e)
    then have sc: "send_command dumps u c ps tmo s = send_command_except ?l e ?s1"
      by (simp add: send_command_def Let_def cn wr)
    show ?thesis
      by (cases rule: send_command_except_cases [of ?l e ?s1]) (simp_all add: sc)
  qed
qed

lemma step_call_ids:
  assumes "inv s" and "step e s = Some s'"
  shows "call_ids (acts s') = call_ids (acts s)
         \<or> call_ids (acts s') = call_ids (acts s) @ uuids [e]"
  using assms(2)
proof (cases rule: step_cases)
  case (Start bound)
  then show ?thesis
    by (simp add: start_def split: sum.split)
next
  case (Accept now)
  let ?r = "handle_connection (nconns s) now (s\<lparr>nconns := Suc (nconns s)\<rparr>)"
  have "call_ids (acts (spawn ?r)) = call_ids (acts (fst ?r))"
    by (rule call_ids_spawn_plain) (rule snd_handle_connection)
  with Accept show ?thesis
    by simp
next
  case (HandlerResume p now c)
  have "call_ids (acts (settle p (handle_connection_finish c now s, Finished ReturnedNone)))
      = call_ids (acts (fst (handle_connection_finish c now s, Finished ReturnedNone)))"
    by (rule call_ids_settle_plain) (simp_all add: HandlerResume)
  with HandlerResume show ?thesis
    by simp
next
  case StopCall
  have "call_ids (acts (spawn (stop s))) = call_ids (acts (fst (stop s)))"
    by (rule call_ids_spawn_plain) (rule snd_stop)
  with StopCall show ?thesis
    by simp
next
  case (StopWriter p)
  have "call_ids (acts (settle p (stop_server s))) = call_ids (acts (fst (stop_server s)))"
    by (rule call_ids_settle_plain) (simp_all add: StopWriter snd_stop_server)
  with StopWriter show ?thesis
    by simp
next
  case (StopServer p)
  have "call_ids (acts (settle p (stop_finish s, Finished ReturnedNone)))
      = call_ids (acts (fst (stop_finish s, Finished ReturnedNone)))"
    by (rule call_ids_settle_plain) (simp_all add: StopServer)
  with StopServer show ?thesis
    by simp
next
  case (TaskBegin t)
  then show ?thesis by simp
next
  case (TaskHeader t header r)
  then show ?thesis by simp
next
  case (TaskBody t data loads now r)
  then show ?thesis by simp
next
  case (TaskRaise t x)
  then show ?thesis by simp
next
  case (SendCall dumps u c ps tmo)
  from send_command_shape [of dumps u c ps tmo s]
  have "call_ids (acts (spawn (send_command dumps u c ps tmo s))) = call_ids (acts s)
      \<or> call_ids (acts (spawn (send_command dumps u c ps tmo s))) = call_ids (acts s) @ [u]"
    by (auto simp: spawn_def call_ids_append)
  with SendCall show ?thesis
    by simp
next
  case (SendWrite p drained l data)
  from assms(1) SendWrite(2,3) have "call_ok (pending s) (futs s) l (AtWrite data)"
    by (rule act_call_ok)
  with assms(1) have "send_ok s l (send_command_write l data drained s)"
    by (rule send_ok_write)
  with SendWrite(2,3)
  have "call_ids (acts (settle p (send_command_write l data drained s))) = call_ids (acts s)"
    by (rule call_ids_settle_send)
  with SendWrite show ?thesis
    by simp
next
  case (SendTimeout p l)
  from assms(1) SendTimeout(2,3) have "call_ok (pending s) (futs s) l AtWait"
    by (rule act_call_ok)
  with assms(1) have "send_ok s l (send_command_timeout l s)"
    by (rule send_ok_timeout)
  with SendTimeout(2,3)
  have "call_ids (acts (settle p (send_command_timeout l s))) = call_ids (acts s)"
    by (rule call_ids_settle_send)
  with SendTimeout show ?thesis
    by simp
next
  case (SendCancel p l ph r)
  from assms(1) SendCancel(2,3) have "call_ok (pending s) (futs s) l ph"
    by (rule act_call_ok)
  with assms(1) have "send_ok s l r"
    using SendCancel(4) by (rule send_ok_cancel)
  with SendCancel(2,3) have "call_ids (acts (settle p r)) = call_ids (acts s)"
    by (rule call_ids_settle_send)
  with SendCancel show ?thesis
    by simp
next
  case (SendResume p l ph r)
  from assms(1) SendResume(2,3) have "call_ok (pending s) (futs s) l ph"
    by (rule act_call_ok)
  with assms(1) have "send_ok s l r"
    using SendResume(4) by (rule send_ok_resume)
  with SendResume(2,3) have "call_ids (acts (settle p r)) = call_ids (acts s)"
    by (rule call_ids_settle_send)
  with SendResume show ?thesis
    by simp
qed

lemma uuids_Cons: "uuids (e # es) = uuids [e] @ uuids es"
  by (cases e) simp_all

lemma run_call_ids:
  "inv s \<Longrightarrow> run es s = Some s' \<Longrightarrow> distinct (call_ids (acts s) @ uuids es)
     \<Longrightarrow> distinct (call_ids (acts s'))"
proof (induction es arbitrary: s)
  case Nil
  then show ?case by simp
next
  case (Cons e es)
  from Cons.prems(2) obtain s1 where s1: "step e s = Some s1" and rest: "run es s1 = Some s'"
    by (auto split: option.splits)
  from Cons.prems(1) s1 have i1: "inv s1"
    by (rule step_inv)
  from Cons.prems(3) have d: "distinct (call_ids (acts s) @ uuids [e] @ uuids es)"
    by (subst (asm) uuids_Cons) simp
  from step_call_ids [OF Cons.prems(1) s1] d
  have "distinct (call_ids (acts s1) @ uuids es)"
    by auto
  with i1 rest show ?case
    by (rule Cons.IH)
qed

text \<open>
  Claim C2. In every run in which \<^verbatim>\<open>uuid.uuid4\<close> never hands out the same value twice, the
  ids of the calls are pairwise distinct; and for every call, at every point of the run
  and whatever the order in which responses arrive, a message held by the call's future
  carries the call's id, and so does a message the call returns.
\<close>

theorem responses_matched_by_id:
  assumes "run es init = Some s" and "distinct (uuids es)"
  shows "distinct (call_ids (acts s))
         \<and> (\<forall>p<length (acts s). \<forall>l ph. acts s ! p = Send l ph \<longrightarrow>
               (\<forall>m. futs s ! fut_of l = FResult m \<longrightarrow> msg_id m = JStr (req_id l))
               \<and> (\<forall>m. ph = Ended (Returned m) \<longrightarrow> msg_id m = JStr (req_id l)))"
proof -
  have "distinct (call_ids (acts init) @ uuids es)"
    using assms(2) by (simp add: init_def)
  with inv_init assms(1) have ids: "distinct (call_ids (acts s))"
    by (rule run_call_ids)
  from assms(1) have "inv s"
    by (intro reachable_inv run_init_reachable)
  then have "call_ok (pending s) (futs s) l ph"
    if "p < length (acts s)" and "acts s ! p = Send l ph" for p l ph
    using that by (rule act_call_ok)
  then have "\<forall>p<length (acts s). \<forall>l ph. acts s ! p = Send l ph \<longrightarrow>
      (\<forall>m. futs s ! fut_of l = FResult m \<longrightarrow> msg_id m = JStr (req_id l))
      \<and> (\<forall>m. ph = Ended (Returned m) \<longrightarrow> msg_id m = JStr (req_id l))"
    unfolding call_ok_def by blast
  with ids show ?thesis
    by simp
qed

subsection \<open>Futures are written once\<close>

lemma futs_spawn [simp]: "futs (spawn r) = futs (fst r)"
  by (simp add: spawn_def)

lemma futs_settle [simp]: "futs (settle p r) = futs (fst r)"
  by (simp add: settle_def)

lemma pending_spawn [simp]: "pending (spawn r) = pending (fst r)"
  by (simp add: spawn_def)

lemma pending_settle [simp]: "pending (settle p r) = pending (fst r)"
  by (simp add: settle_def)

lemma futs_cancel_read_task [simp]: "futs (cancel_read_task s) = futs s"
  by (simp add: cancel_read_task_def split: option.split)

lemma pending_cancel_read_task [simp]: "pending (cancel_read_task s) = pending s"
  by (simp add: cancel_read_task_def split: option.split)

lemma wo_fail_pending: "write_once (futs s) (futs (fail_pending m s))"
  by (simp add: fail_pending_def)

lemma wo_read_loop_finally: "write_once (futs s) (futs (read_loop_finally t s))"
  using wo_fail_pending [of "s\<lparr>connected := False\<rparr>" "''EA disconnected''"]
  by (simp add: read_loop_finally_def Let_def)

lemma wo_read_loop_next: "write_once (futs s) (futs (read_loop_next t s))"
  by (simp add: read_loop_next_def wo_read_loop_finally split: option.split)

lemma wo_read_loop_begin: "write_once (futs s) (futs (read_loop_begin t s))"
  by (simp add: read_loop_begin_def wo_read_loop_next)

lemma wo_read_loop_header: "write_once (futs s) (futs (read_loop_header t header s))"
  by (simp add: read_loop_header_def wo_read_loop_finally split: option.split)

lemma wo_read_loop_route:
  "read_loop_route msg s = Some s1 \<Longrightarrow> write_once (futs s) (futs s1)"
  by (erule read_loop_route_cases) simp_all

lemma wo_read_loop_body: "write_once (futs s) (futs (read_loop_body loads t data now s))"
proof (cases "loads data")
  case (Inl e)
  then show ?thesis
    by (simp add: read_loop_body_def wo_read_loop_finally)
next
  case (Inr msg)
  show ?thesis
  proof (cases "read_loop_route msg (s\<lparr>last_seen := Some now\<rparr>)")
    case None
    with Inr wo_read_loop_finally [of "s\<lparr>last_seen := Some now\<rparr>" t] show ?thesis
      by (simp add: read_loop_body_def)
  next
    case (Some s1)
    then have "write_once (futs (s\<lparr>last_seen := Some now\<rparr>)) (futs s1)"
      by (rule wo_read_loop_route)
    then have "write_once (futs s) (futs (read_loop_next t s1))"
      using wo_read_loop_next [of s1 t] by (auto intro: write_once_trans)
    with Inr Some show ?thesis
      by (simp add: read_loop_body_def)
  qed
qed

lemma wo_stop_finish: "write_once (futs s) (futs (stop_finish s))"
  using wo_fail_pending [of "s\<lparr>connected := False\<rparr>" "''Bridge shutting down''"]
  by (simp add: stop_finish_def)

lemma wo_stop_server: "write_once (futs s) (futs (fst (stop_server s)))"
  by (simp add: stop_server_def wo_stop_finish split: option.split)

lemma wo_stop: "write_once (futs s) (futs (fst (stop s)))"
  using wo_stop_server [of "cancel_read_task s"]
  by (simp add: stop_def Let_def split: option.split)

lemma futs_handle_connection [simp]: "futs (fst (handle_connection c now s)) = futs s"
  by (simp add: handle_connection_def handle_connection_finish_def Let_def split: option.split)

lemma futs_send_command_except [simp]: "futs (fst (send_command_except l e s)) = futs s"
  by (simp add: send_command_except_def)

lemma wo_send_command: "write_once (futs s) (futs (fst (send_command dumps u c ps tmo s)))"
  by (simp add: send_command_def Let_def split: sum.split)

lemma wo_send_command_write:
  "write_once (futs s) (futs (fst (send_command_write l data drained s)))"
  by (simp add: send_command_write_def Let_def split: option.split)

lemma wo_send_command_timeout: "write_once (futs s) (futs (fst (send_command_timeout l s)))"
  by (simp add: send_command_timeout_def)

lemma wo_send_command_cancel:
  "send_command_cancel l ph s = Some r \<Longrightarrow> write_once (futs s) (futs (fst r))"
  by (cases ph) (auto simp: send_command_cancel_def)

lemma wo_send_command_resume:
  "send_command_resume l ph s = Some r \<Longrightarrow> write_once (futs s) (futs (fst r))"
  by (cases ph; cases "futs s ! fut_of l")
    (auto simp: send_command_resume_def split: if_splits)

lemma step_write_once:
  assumes "step e s = Some s'"
  shows "write_once (futs s) (futs s')"
  using assms
proof (cases rule: step_cases)
  case (Start bound)
  then show ?thesis by (simp add: start_def split: sum.split)
next
  case (Accept now)
  then show ?thesis by simp
next
  case (HandlerResume p now c)
  then show ?thesis by (simp add: handle_connection_finish_def)
next
  case StopCall
  then show ?thesis by (simp add: wo_stop)
next
  case (StopWriter p)
  then show ?thesis by (simp add: wo_stop_server)
next
  case (StopServer p)
  then show ?thesis by (simp add: wo_stop_finish)
next
  case (TaskBegin t)
  then show ?thesis by (simp add: wo_read_loop_begin)
next
  case (TaskHeader t header r)
  then show ?thesis by (simp add: wo_read_loop_header)
next
  case (TaskBody t data loads now r)
  then show ?thesis by (simp add: wo_read_loop_body)
next
  case (TaskRaise t x)
  then show ?thesis by (simp add: wo_read_loop_finally)
next
  case (SendCall dumps u c ps tmo)
  then show ?thesis by (simp add: wo_send_command)
next
  case (SendWrite p drained l data)
  then show ?thesis by (simp add: wo_send_command_write)
next
  case (SendTimeout p l)
  then show ?thesis by (simp add: wo_send_command_timeout)
next
  case (SendCancel p l ph r)
  then show ?thesis by (simp add: wo_send_command_cancel)
next
  case (SendResume p l ph r)
  then show ?thesis by (simp add: wo_send_command_resume)
qed

subsection \<open>What stop and the end of a read loop leave behind\<close>

lemma torn_fail_pending:
  assumes "inv s" and "pending s1 = pending s" and "futs s1 = futs s"
  shows "pending (fail_pending m s1) = []
         \<and> (\<forall>(k, f) \<in> set (pending s). f < length (futs (fail_pending m s1))
               \<and> failed (futs (fail_pending m s1) ! f))"
proof -
  have "f < length (futs s) \<and> (futs s ! f = FPending \<or> futs s ! f = FCancelled)"
    if "(k, f) \<in> set (pending s)" for k f
    using assms(1) that by (auto simp: inv_def inv_core_def)
  then show ?thesis
    using assms(2,3) by (force simp: fail_pending_def nth_fold_resolve failed_def)
qed

lemma torn_read_loop_finally:
  assumes "inv s" and "pending s1 = pending s" and "futs s1 = futs s"
  shows "torn s (read_loop_finally t s1)"
  using torn_fail_pending [OF assms(1), of "s1\<lparr>connected := False\<rparr>" "''EA disconnected''"] assms(2,3)
  by (simp add: torn_def read_loop_finally_def Let_def)

lemma torn_stop_finish:
  assumes "inv s" and "pending s1 = pending s" and "futs s1 = futs s"
  shows "torn s (stop_finish s1)"
  using torn_fail_pending [OF assms(1), of "s1\<lparr>connected := False\<rparr>" "''Bridge shutting down''"] assms(2,3)
  by (simp add: torn_def stop_finish_def)

lemma torn_spawn [simp]: "torn s (spawn r) = torn s (fst r)"
  by (simp add: torn_def)

lemma torn_settle [simp]: "torn s (settle p r) = torn s (fst r)"
  by (simp add: torn_def)

lemma stop_server_finished:
  "snd (stop_server s) = Finished ReturnedNone \<Longrightarrow> fst (stop_server s) = stop_finish s"
  by (simp add: stop_server_def split: option.splits)

lemma stop_finished:
  "snd (stop s) = Finished ReturnedNone \<Longrightarrow> fst (stop s) = stop_finish (cancel_read_task s)"
  by (simp add: stop_def Let_def stop_server_finished split: option.splits)

lemma read_loop_header_done:
  assumes "t < length (tasks s)" and "fst (tasks (read_loop_header t header s) ! t) = TDone"
  shows "read_loop_header t header s = read_loop_finally t s"
  using assms by (auto simp: read_loop_header_def split: option.splits if_splits)

lemma read_loop_route_frame:
  assumes "read_loop_route msg s = Some s1"
  shows "reader s1 = reader s \<and> tasks s1 = tasks s"
  using assms by (rule read_loop_route_cases) simp_all

lemma read_loop_body_done:
  assumes "inv s" and "t < length (tasks s)"
    and "fst (tasks (read_loop_body loads t data now s) ! t) = TDone"
  shows "\<exists>s1. pending s1 = pending s \<and> futs s1 = futs s
           \<and> read_loop_body loads t data now s = read_loop_finally t s1"
proof (cases "loads data")
  case (Inl e)
  then have "read_loop_body loads t data now s = read_loop_finally t s"
    by (simp add: read_loop_body_def)
  then show ?thesis by blast
next
  case (Inr msg)
  let ?s0 = "s\<lparr>last_seen := Some now\<rparr>"
  show ?thesis
  proof (cases "read_loop_route msg ?s0")
    case None
    with Inr have "read_loop_body loads t data now s = read_loop_finally t ?s0"
      by (simp add: read_loop_body_def)
    moreover have "pending ?s0 = pending s \<and> futs ?s0 = futs s"
      by simp
    ultimately show ?thesis by blast
  next
    case (Some s1)
    from read_loop_route_frame [OF Some] have fr: "reader s1 = reader s" "tasks s1 = tasks s"
      by simp_all
    from assms(1,2) obtain r where "reader s = Some r"
      by (auto simp: inv_def)
    with fr assms(2) have "fst (tasks (read_loop_next t s1) ! t) = TReadHeader r"
      by (simp add: read_loop_next_def)
    moreover from Inr Some have "read_loop_body loads t data now s = read_loop_next t s1"
      by (simp add: read_loop_body_def)
    ultimately show ?thesis
      using assms(3) by simp
  qed
qed

lemma acts_spawn_new: "acts (spawn r) ! length (acts (fst r)) = snd r"
  by (simp add: spawn_def)

lemma acts_settle_same: "p < length (acts (fst r)) \<Longrightarrow> acts (settle p r) ! p = snd r"
  by (simp add: settle_def)

lemma step_torn:
  assumes "inv s" and "step e s = Some s'"
    and "stop_returns e s s' \<or> read_loop_leaves_try e s s'"
  shows "torn s s'"
  using assms(2)
proof (cases rule: step_cases)
  case (Start bound)
  with assms(3) show ?thesis by (simp add: stop_returns_def read_loop_leaves_try_def)
next
  case (Accept now)
  with assms(3) show ?thesis by (simp add: stop_returns_def read_loop_leaves_try_def)
next
  case (HandlerResume p now c)
  with assms(3) show ?thesis by (simp add: stop_returns_def read_loop_leaves_try_def)
next
  case StopCall
  with assms(3) have "acts (spawn (stop s)) ! length (acts (fst (stop s))) = Finished ReturnedNone"
    by (simp add: stop_returns_def read_loop_leaves_try_def)
  then have "snd (stop s) = Finished ReturnedNone"
    by (simp only: acts_spawn_new)
  then have "fst (stop s) = stop_finish (cancel_read_task s)"
    by (rule stop_finished)
  moreover have "torn s (stop_finish (cancel_read_task s))"
    using assms(1) by (rule torn_stop_finish) simp_all
  ultimately show ?thesis
    using StopCall by simp
next
  case (StopWriter p)
  with assms(3) have "acts (settle p (stop_server s)) ! p = Finished ReturnedNone"
    by (simp add: stop_returns_def read_loop_leaves_try_def)
  with StopWriter(2) have "snd (stop_server s) = Finished ReturnedNone"
    by (simp add: acts_settle_same)
  then have "fst (stop_server s) = stop_finish s"
    by (rule stop_server_finished)
  moreover have "torn s (stop_finish s)"
    using assms(1) by (rule torn_stop_finish) simp_all
  ultimately show ?thesis
    using StopWriter by simp
next
  case (StopServer p)
  have "torn s (stop_finish s)"
    using assms(1) by (rule torn_stop_finish) simp_all
  with StopServer show ?thesis by simp
next
  case (TaskBegin t)
  with assms(3) have live: "\<not> snd (tasks s ! t)"
    and fin: "fst (tasks (read_loop_begin t s) ! t) = TDone"
    by (simp_all add: stop_returns_def read_loop_leaves_try_def)
  have "read_loop_begin t s = read_loop_finally t s"
  proof (cases "reader s")
    case None
    with live show ?thesis
      by (simp add: read_loop_begin_def read_loop_next_def)
  next
    case (Some r)
    with live TaskBegin(2) have "fst (tasks (read_loop_begin t s) ! t) = TReadHeader r"
      by (simp add: read_loop_begin_def read_loop_next_def)
    with fin show ?thesis by simp
  qed
  moreover have "torn s (read_loop_finally t s)"
    using assms(1) by (rule torn_read_loop_finally) simp_all
  ultimately show ?thesis
    using TaskBegin by simp
next
  case (TaskHeader t header r)
  with assms(3) have "fst (tasks (read_loop_header t header s) ! t) = TDone"
    by (simp add: stop_returns_def read_loop_leaves_try_def)
  with TaskHeader(2) have "read_loop_header t header s = read_loop_finally t s"
    by (rule read_loop_header_done)
  moreover have "torn s (read_loop_finally t s)"
    using assms(1) by (rule torn_read_loop_finally) simp_all
  ultimately show ?thesis
    using TaskHeader by simp
next
  case (TaskBody t data loads now r)
  with assms(3) have "fst (tasks (read_loop_body loads t data now s) ! t) = TDone"
    by (simp add: stop_returns_def read_loop_leaves_try_def)
  with assms(1) TaskBody(2) obtain s1 where "pending s1 = pending s" and "futs s1 = futs s"
    and "read_loop_body loads t data now s = read_loop_finally t s1"
    using read_loop_body_done by blast
  with assms(1) TaskBody show ?thesis
    by (simp add: torn_read_loop_finally)
next
  case (TaskRaise t x)
  have "torn s (read_loop_finally t s)"
    using assms(1) by (rule torn_read_loop_finally) simp_all
  with TaskRaise show ?thesis by simp
next
  case (SendCall dumps u c ps tmo)
  with assms(3) show ?thesis by (simp add: stop_returns_def read_loop_leaves_try_def)
next
  case (SendWrite p drained l data)
  with assms(3) show ?thesis by (simp add: stop_returns_def read_loop_leaves_try_def)
next
  case (SendTimeout p l)
  with assms(3) show ?thesis by (simp add: stop_returns_def read_loop_leaves_try_def)
next
  case (SendCancel p l ph r)
  with assms(3) show ?thesis by (simp add: stop_returns_def read_loop_leaves_try_def)
next
  case (SendResume p l ph r)
  with assms(3) show ?thesis by (simp add: stop_returns_def read_loop_leaves_try_def)
qed

lemma failed_raises:
  assumes "fut_of l < length (futs s)" and "failed (futs s ! fut_of l)"
  shows "raises_on_resume l s"
proof (cases "futs s ! fut_of l")
  case (FException e)
  with assms(1) have "send_command_resume l AtWait s = Some (send_command_except l e s)"
    by (simp add: send_command_resume_def)
  then show ?thesis
    by (cases rule: send_command_except_cases [of l e s]) (simp_all add: raises_on_resume_def)
next
  case FCancelled
  with assms(1)
  have "send_command_resume l AtWait s = Some (send_command_except l CancelledError s)"
    by (simp add: send_command_resume_def)
  then show ?thesis
    by (cases rule: send_command_except_cases [of l CancelledError s])
      (simp_all add: raises_on_resume_def)
qed (use assms(2) in \<open>simp_all add: failed_def\<close>)

lemma torn_torn_down:
  assumes "torn s s'"
  shows "torn_down s s'"
proof -
  have "failed (futs s' ! f) \<and> (\<forall>l. fut_of l = f \<longrightarrow> raises_on_resume l s')"
    if "(k, f) \<in> set (pending s)" for k f
  proof -
    from assms that have "f < length (futs s')" and "failed (futs s' ! f)"
      by (auto simp: torn_def)
    then show ?thesis
      using failed_raises by blast
  qed
  moreover from assms have "pending s' = []"
    by (simp add: torn_def)
  ultimately show ?thesis
    unfolding torn_down_def by blast
qed

section \<open>Timeouts, failures and oversized frames\<close>

lemmas blocks =
  init_def start_def handle_connection_def handle_connection_finish_def cancel_read_task_def
  read_loop_begin_def read_loop_next_def read_loop_header_def read_loop_body_def
  read_loop_route_def read_loop_finally_def fail_pending_def resolve_def
  stop_def stop_server_def stop_finish_def
  send_command_def send_command_frame_def send_command_except_def send_command_write_def
  send_command_timeout_def send_command_cancel_def send_command_resume_def
  spawn_def settle_def reading_def request_message_def struct_pack_I_def struct_unpack_I_def
  dict_get_def dict_get_default_def

lemma waiting_run_state: "run waiting_run init = Some waiting_state"
  by (simp add: waiting_run_def waiting_state_def tick_frame_def small_payload_def blocks)

lemma waiting_reachable: "reachable waiting_state"
  using waiting_run_state by (rule run_init_reachable)

subsection \<open>Timeouts and failures of a call\<close>

lemma except_timeout:
  "send_command_except l AsyncioTimeoutError s
     = (s\<lparr>pending := AList.delete (req_id l) (pending s)\<rparr>,
        Send l (Ended (Raised (TimeoutError (command_of l) (timeout_of l)))))"
  by (simp add: send_command_except_def)

lemma map_of_delete_same: "map_of (AList.delete k al) k = None"
  by (simp add: AList.delete_conv')

lemma read_loop_route_absent:
  assumes "map_of (pending s) k = None" and "dict_get kvs ''id'' = JStr k"
  shows "read_loop_route (JObj kvs) s = Some s"
  using assms by (simp add: read_loop_route_def)

lemma late_response_dropped:
  assumes "inv s" and "map_of (pending s) k = None" and "loads data = Inr (JObj kvs)"
    and "dict_get kvs ''id'' = JStr k" and "step (TaskBody t data loads now) s = Some s'"
  shows "pending s' = pending s \<and> futs s' = futs s \<and> acts s' = acts s"
proof -
  from assms(5) obtain r where t: "t < length (tasks s)"
    and s': "s' = read_loop_body loads t data now s"
    by (rule step_TaskBody)
  from assms(1) t obtain c where c: "reader s = Some c"
    by (auto simp: inv_def)
  have "read_loop_route (JObj kvs) (s\<lparr>last_seen := Some now\<rparr>) = Some (s\<lparr>last_seen := Some now\<rparr>)"
    using assms(2,4) by (simp add: read_loop_route_absent)
  with assms(3) c have "read_loop_body loads t data now s
      = s\<lparr>last_seen := Some now, tasks := (tasks s)[t := (TReadHeader c, False)]\<rparr>"
    by (simp add: read_loop_body_def read_loop_next_def)
  with s' show ?thesis
    by simp
qed

text \<open>
  Claim C3. A call whose future is still unresolved when the timeout of
  \<^verbatim>\<open>wait_for\<close> runs out times out; when it runs again, in whatever state, it removes its
  id from the table and raises \<^verbatim>\<open>TimeoutError\<close>. In every reachable state whose table
  lacks the id, a response carrying the id is dropped: table, futures and calls are
  unchanged.
\<close>

theorem timeout_removes_entry:
  assumes "reachable s" and "p < length (acts s)" and "acts s ! p = Send l AtWait"
    and "futs s ! fut_of l = FPending"
  shows "(\<exists>s1. step (SendTimeout p) s = Some s1 \<and> acts s1 ! p = Send l TimedOut
            \<and> pending s1 = pending s)
         \<and> (\<forall>s1. p < length (acts s1) \<and> acts s1 ! p = Send l TimedOut \<longrightarrow>
               (\<exists>s2. step (SendResume p) s1 = Some s2
                  \<and> acts s2 ! p
                      = Send l (Ended (Raised (TimeoutError (command_of l) (timeout_of l))))
                  \<and> pending s2 = AList.delete (req_id l) (pending s1)
                  \<and> map_of (pending s2) (req_id l) = None \<and> futs s2 = futs s1))
         \<and> (\<forall>s3 s4 t data loads now kvs.
               reachable s3 \<and> map_of (pending s3) (req_id l) = None
               \<and> loads data = Inr (JObj kvs) \<and> dict_get kvs ''id'' = JStr (req_id l)
               \<and> step (TaskBody t data loads now) s3 = Some s4 \<longrightarrow>
               pending s4 = pending s3 \<and> futs s4 = futs s3 \<and> acts s4 = acts s3)"
proof -
  from assms(1) have i: "inv s"
    by (rule reachable_inv)
  from i assms(2,3) have "call_ok (pending s) (futs s) l AtWait"
    by (rule act_call_ok)
  then have f: "fut_of l < length (futs s)"
    by (simp add: call_ok_def)
  have fire: "\<exists>s1. step (SendTimeout p) s = Some s1 \<and> acts s1 ! p = Send l TimedOut
      \<and> pending s1 = pending s"
    using assms(2,3,4) f by (simp add: send_command_timeout_def settle_def)
  have wake: "\<exists>s2. step (SendResume p) s1 = Some s2
      \<and> acts s2 ! p = Send l (Ended (Raised (TimeoutError (command_of l) (timeout_of l))))
      \<and> pending s2 = AList.delete (req_id l) (pending s1)
      \<and> map_of (pending s2) (req_id l) = None \<and> futs s2 = futs s1"
    if "p < length (acts s1)" and "acts s1 ! p = Send l TimedOut" for s1
    using that
    by (simp add: send_command_resume_def except_timeout settle_def map_of_delete_same)
  have late: "pending s4 = pending s3 \<and> futs s4 = futs s3 \<and> acts s4 = acts s3"
    if "reachable s3" and "map_of (pending s3) (req_id l) = None"
      and "loads data = Inr (JObj kvs)" and "dict_get kvs ''id'' = JStr (req_id l)"
      and "step (TaskBody t data loads now) s3 = Some s4"
    for s3 s4 t data loads now kvs
    using reachable_inv [OF that(1)] that(2-5) by (rule late_response_dropped)
  from fire wake late show ?thesis
    by blast
qed

lemma except_pops:
  assumes "send_command_except l e s = (s1, Send l' (Ended (Raised x)))" and "is_Exception x"
  shows "map_of (pending s1) (req_id l') = None"
proof (cases "is_TimeoutError e")
  case True
  with assms(1) show ?thesis
    by (auto simp: send_command_except_def map_of_delete_same)
next
  case False
  show ?thesis
  proof (cases "is_Exception e")
    case True
    with False assms(1) show ?thesis
      by (auto simp: send_command_except_def map_of_delete_same)
  next
    case e: False
    with False assms(1) have "x = e"
      by (simp add: send_command_except_def)
    with e assms(2) show ?thesis
      by simp
  qed
qed

lemma except_pops_pair:
  assumes "snd (send_command_except l e s) = Send l' (Ended (Raised x))" and "is_Exception x"
  shows "map_of (pending (fst (send_command_except l e s))) (req_id l') = None"
  using except_pops [of l e s "fst (send_command_except l e s)" l' x] assms
  by (simp add: prod_eq_iff)

lemma send_command_raised:
  assumes "snd (send_command dumps u c ps tmo s) = Send l (Ended (Raised x))"
    and "is_Exception x"
  shows "map_of (pending (fst (send_command dumps u c ps tmo s))) (req_id l) = None"
proof (cases "\<not> connected s \<or> writer s = None")
  case True
  then have "send_command dumps u c ps tmo s
      = (s, Finished (Raised (ConnectionError ''EA not connected'')))"
    by (auto simp: send_command_def)
  with assms(1) show ?thesis
    by simp
next
  case False
  then have cn: "connected s" and wr: "writer s \<noteq> None"
    by auto
  let ?l = "Locals u (length (futs s)) c tmo"
  let ?s1 = "s\<lparr>futs := futs s @ [FPending],
                pending := AList.update u (length (futs s)) (pending s)\<rparr>"
  show ?thesis
  proof (cases "send_command_frame dumps (request_message u c ps)")
    case (Inr data)
    then have "send_command dumps u c ps tmo s = (?s1, Send ?l (AtWrite data))"
      by (simp add: send_command_def Let_def cn wr)
    with assms(1) show ?thesis
      by simp
  next
    case (Inl e)
    then have sc: "send_command dumps u c ps tmo s = send_command_except ?l e ?s1"
      by (simp add: send_command_def Let_def cn wr)
    with assms show ?thesis
      by (simp add: except_pops_pair)
  qed
qed

lemma send_command_write_raised:
  assumes "snd (send_command_write l data drained s) = Send l' (Ended (Raised x))"
    and "is_Exception x"
  shows "map_of (pending (fst (send_command_write l data drained s))) (req_id l') = None"
proof (cases "writer s")
  case None
  with assms show ?thesis
    by (simp add: send_command_write_def except_pops_pair)
next
  case (Some w)
  show ?thesis
  proof (cases drained)
    case None
    with Some assms(1) show ?thesis
      by (simp add: send_command_write_def)
  next
    case e: (Some e)
    with Some assms show ?thesis
      by (simp add: send_command_write_def except_pops_pair)
  qed
qed

lemma except_cancelled:
  "snd (send_command_except l CancelledError s) = Send l (Ended (Raised CancelledError))"
  by (simp add: send_command_except_def)

lemma send_command_cancel_raised:
  assumes "send_command_cancel l ph s = Some r" and "snd r = Send l' (Ended (Raised x))"
  shows "\<not> is_Exception x"
  using assms
  by (cases ph) (auto simp: send_command_cancel_def except_cancelled)

lemma send_command_resume_raised:
  assumes "send_command_resume l ph s = Some r" and "snd r = Send l' (Ended (Raised x))"
    and "is_Exception x"
  shows "map_of (pending (fst r)) (req_id l') = None"
proof (cases ph)
  case AtWait
  show ?thesis
  proof (cases "futs s ! fut_of l")
    case FPending
    with AtWait assms(1) show ?thesis
      by (simp add: send_command_resume_def split: if_splits)
  next
    case (FResult msg)
    with AtWait assms(1,2) show ?thesis
      by (auto simp: send_command_resume_def split: if_splits)
  next
    case (FException e)
    with AtWait assms(1) have "r = send_command_except l e s"
      by (simp add: send_command_resume_def split: if_splits)
    with assms(2,3) show ?thesis
      by (simp add: except_pops_pair)
  next
    case FCancelled
    with AtWait assms(1) have "r = send_command_except l CancelledError s"
      by (simp add: send_command_resume_def split: if_splits)
    with assms(2,3) show ?thesis
      by (simp add: except_pops_pair)
  qed
next
  case TimedOut
  with assms(1) have "r = send_command_except l AsyncioTimeoutError s"
    by (simp add: send_command_resume_def)
  with assms(2,3) show ?thesis
    by (simp add: except_pops_pair)
qed (use assms(1) in \<open>simp_all add: send_command_resume_def\<close>)

lemma acts_spawn_old: "p < length (acts (fst r)) \<Longrightarrow> acts (spawn r) ! p = acts (fst r) ! p"
  by (simp add: spawn_def nth_append)

lemma acts_settle_other: "q \<noteq> p \<Longrightarrow> acts (settle p r) ! q = acts (fst r) ! q"
  by (simp add: settle_def)

lemma length_acts_spawn: "length (acts (spawn r)) = Suc (length (acts (fst r)))"
  by (simp add: spawn_def)

lemma length_acts_settle: "length (acts (settle p r)) = length (acts (fst r))"
  by (simp add: settle_def)

lemma acts_send_command_except [simp]: "acts (fst (send_command_except l e s)) = acts s"
  by (simp add: send_command_except_def)

lemma acts_send_command [simp]: "acts (fst (send_command dumps u c ps tmo s)) = acts s"
  using send_command_shape [of dumps u c ps tmo s] by simp

lemma acts_send_command_write [simp]:
  "acts (fst (send_command_write l data drained s)) = acts s"
  by (simp add: send_command_write_def Let_def split: option.split)

lemma acts_send_command_timeout [simp]: "acts (fst (send_command_timeout l s)) = acts s"
  by (simp add: send_command_timeout_def)

lemma acts_send_command_cancel:
  "send_command_cancel l ph s = Some r \<Longrightarrow> acts (fst r) = acts s"
  by (cases ph) (auto simp: send_command_cancel_def)

lemma acts_send_command_resume:
  "send_command_resume l ph s = Some r \<Longrightarrow> acts (fst r) = acts s"
  by (cases ph; cases "futs s ! fut_of l")
    (auto simp: send_command_resume_def split: if_splits)

lemma newly_spawn:
  assumes "acts (fst r) = acts s" and "p < length (acts (spawn r))"
    and "acts (spawn r) ! p = a" and "p < length (acts s) \<longrightarrow> acts s ! p \<noteq> a"
  shows "snd r = a"
proof (cases "p < length (acts s)")
  case True
  with assms(1,3) have "acts s ! p = a"
    by (simp add: spawn_def nth_append)
  with True assms(4) show ?thesis
    by simp
next
  case False
  with assms(1,2) have "p = length (acts s)"
    by (simp add: spawn_def)
  with assms(1,3) show ?thesis
    by (simp add: spawn_def)
qed

lemma newly_settle:
  assumes "acts (fst r) = acts s" and "p < length (acts (settle q r))"
    and "acts (settle q r) ! p = a" and "p < length (acts s) \<longrightarrow> acts s ! p \<noteq> a"
  shows "snd r = a"
proof (cases "p = q")
  case True
  with assms(1,2,3) show ?thesis
    by (simp add: settle_def)
next
  case False
  with assms(1,2,3) have "p < length (acts s) \<and> acts s ! p = a"
    by (simp add: settle_def)
  with assms(4) show ?thesis
    by simp
qed

lemma newly_same:
  assumes "acts s' = acts s" and "p < length (acts s')" and "acts s' ! p = a"
    and "p < length (acts s) \<longrightarrow> acts s ! p \<noteq> a"
  shows False
  using assms by simp

text \<open>
  Whenever a step ends a \<^verbatim>\<open>send_command\<close> call by raising an exception of class
  \<^verbatim>\<open>Exception\<close> (a serialization or \<^verbatim>\<open>struct\<close> error, a failed write, the timeout,
  the \<^verbatim>\<open>ConnectionError\<close> a disconnect or \<^verbatim>\<open>stop()\<close> put into the future), the table
  holds no entry for the call's id after the step: one of the two handlers has removed
  it. A call refused as not connected has generated no id and changed nothing.
\<close>

lemma raised_exception_pops:
  assumes "step e s = Some s'" and "p < length (acts s')"
    and "acts s' ! p = Send l (Ended (Raised x))"
    and "p < length (acts s) \<longrightarrow> acts s ! p \<noteq> Send l (Ended (Raised x))"
    and "is_Exception x"
  shows "map_of (pending s') (req_id l) = None"
  using assms(1)
proof (cases rule: step_cases)
  case (Start bound)
  then have "acts s' = acts s"
    by (simp add: start_def split: sum.split)
  from newly_same [OF this assms(2,3,4)] show ?thesis ..
next
  case (Accept now)
  let ?r = "handle_connection (nconns s) now (s\<lparr>nconns := Suc (nconns s)\<rparr>)"
  have "acts (fst ?r) = acts s"
    by simp
  from newly_spawn [OF this] assms(2,3,4) Accept(2) have "snd ?r = Send l (Ended (Raised x))"
    by blast
  then show ?thesis
    by (simp add: snd_handle_connection)
next
  case (HandlerResume q now c)
  let ?r = "(handle_connection_finish c now s, Finished ReturnedNone)"
  have "acts (fst ?r) = acts s"
    by simp
  from newly_settle [OF this] assms(2,3,4) HandlerResume(4)
  have "snd ?r = Send l (Ended (Raised x))"
    by blast
  then show ?thesis
    by simp
next
  case StopCall
  have "acts (fst (stop s)) = acts s"
    by simp
  from newly_spawn [OF this] assms(2,3,4) StopCall(2)
  have "snd (stop s) = Send l (Ended (Raised x))"
    by blast
  then show ?thesis
    by (simp add: snd_stop)
next
  case (StopWriter q)
  have "acts (fst (stop_server s)) = acts s"
    by simp
  from newly_settle [OF this] assms(2,3,4) StopWriter(4)
  have "snd (stop_server s) = Send l (Ended (Raised x))"
    by blast
  then show ?thesis
    by (simp add: snd_stop_server)
next
  case (StopServer q)
  let ?r = "(stop_finish s, Finished ReturnedNone)"
  have "acts (fst ?r) = acts s"
    by simp
  from newly_settle [OF this] assms(2,3,4) StopServer(4)
  have "snd ?r = Send l (Ended (Raised x))"
    by blast
  then show ?thesis
    by simp
next
  case (TaskBegin t)
  then have "acts s' = acts s"
    by simp
  from newly_same [OF this assms(2,3,4)] show ?thesis ..
next
  case (TaskHeader t header r)
  then have "acts s' = acts s"
    by simp
  from newly_same [OF this assms(2,3,4)] show ?thesis ..
next
  case (TaskBody t data loads now r)
  then have "acts s' = acts s"
    by simp
  from newly_same [OF this assms(2,3,4)] show ?thesis ..
next
  case (TaskRaise t y)
  then have "acts s' = acts s"
    by simp
  from newly_same [OF this assms(2,3,4)] show ?thesis ..
next
  case (SendCall dumps u c ps tmo)
  let ?r = "send_command dumps u c ps tmo s"
  have "acts (fst ?r) = acts s"
    by simp
  from newly_spawn [OF this] assms(2,3,4) SendCall(2)
  have "snd ?r = Send l (Ended (Raised x))"
    by blast
  then have "map_of (pending (fst ?r)) (req_id l) = None"
    using assms(5) by (rule send_command_raised)
  with SendCall(2) show ?thesis
    by simp
next
  case (SendWrite q drained l0 data)
  let ?r = "send_command_write l0 data drained s"
  have "acts (fst ?r) = acts s"
    by simp
  from newly_settle [OF this] assms(2,3,4) SendWrite(4)
  have "snd ?r = Send l (Ended (Raised x))"
    by blast
  then have "map_of (pending (fst ?r)) (req_id l) = None"
    using assms(5) by (rule send_command_write_raised)
  with SendWrite(4) show ?thesis
    by simp
next
  case (SendTimeout q l0)
  let ?r = "send_command_timeout l0 s"
  have "acts (fst ?r) = acts s"
    by simp
  from newly_settle [OF this] assms(2,3,4) SendTimeout(6)
  have "snd ?r = Send l (Ended (Raised x))"
    by blast
  then show ?thesis
    by (simp add: send_command_timeout_def)
next
  case (SendCancel q l0 ph r)
  from SendCancel(4) have "acts (fst r) = acts s"
    by (rule acts_send_command_cancel)
  from newly_settle [OF this] assms(2,3,4) SendCancel(5)
  have "snd r = Send l (Ended (Raised x))"
    by blast
  with SendCancel(4) have "\<not> is_Exception x"
    by (rule send_command_cancel_raised)
  with assms(5) show ?thesis
    by simp
next
  case (SendResume q l0 ph r)
  from SendResume(4) have "acts (fst r) = acts s"
    by (rule acts_send_command_resume)
  from newly_settle [OF this] assms(2,3,4) SendResume(5)
  have "snd r = Send l (Ended (Raised x))"
    by blast
  with SendResume(4) have "map_of (pending (fst r)) (req_id l) = None"
    using assms(5) by (rule send_command_resume_raised)
  with SendResume(5) show ?thesis
    by simp
qed

subsection \<open>An oversized frame\<close>

lemma struct_unpack_length: "struct_unpack_I header = Some n \<Longrightarrow> length header = 4"
  by (auto simp: struct_unpack_I_def split: list.splits)

lemma read_loop_frame_too_large:
  assumes "struct_unpack_I header = Some n" and "1000000 < n"
  shows "read_loop_frame loads (header @ rest) = TooLarge n rest"
  using assms struct_unpack_length [OF assms(1)] by (simp add: read_loop_frame_def)

lemma read_loop_header_too_large:
  assumes "struct_unpack_I header = Some n" and "1000000 < n"
  shows "read_loop_header t header s = read_loop_finally t s"
  using assms by (simp add: read_loop_header_def)

lemma read_loop_finally_fields:
  "server (read_loop_finally t s) = server s"
  "listening (read_loop_finally t s) = listening s"
  "reader (read_loop_finally t s) = reader s"
  "writer (read_loop_finally t s) = writer s"
  "closed_writers (read_loop_finally t s) = closed_writers s"
  "sent (read_loop_finally t s) = sent s"
  "nconns (read_loop_finally t s) = nconns s"
  "read_task (read_loop_finally t s) = read_task s"
  "last_seen (read_loop_finally t s) = last_seen s"
  "\<not> connected (read_loop_finally t s)"
  "pending (read_loop_finally t s) = []"
  "tasks (read_loop_finally t s) = (tasks s)[t := (TDone, False)]"
  by (simp_all add: read_loop_finally_def fail_pending_def Let_def)

lemma futs_read_loop_finally:
  "futs (read_loop_finally t s)
     = fold (\<lambda>f. resolve f (FException (ConnectionError ''EA disconnected'')))
         (map snd (pending s)) (futs s)"
  by (simp add: read_loop_finally_def fail_pending_def Let_def)

lemma read_loop_finally_fails:
  assumes "inv s" and "(k, f) \<in> set (pending s)" and "futs s ! f = FPending"
  shows "futs (read_loop_finally t s) ! f = FException (ConnectionError ''EA disconnected'')"
proof -
  from assms(1,2) have "f < length (futs s)"
    by (auto simp: inv_def inv_core_def)
  moreover from assms(2) have "f \<in> set (map snd (pending s))"
    by force
  ultimately show ?thesis
    using assms(3) by (simp add: futs_read_loop_finally nth_fold_resolve)
qed

lemma cancel_read_task_fields:
  "writer (cancel_read_task s) = writer s"
  "reader (cancel_read_task s) = reader s"
  "length (tasks (cancel_read_task s)) = length (tasks s)"
  "closed_writers (cancel_read_task s) = closed_writers s"
  "connected (cancel_read_task s) = connected s"
  by (simp_all add: cancel_read_task_def split: option.split)

lemma reconnect:
  assumes "writer s = Some w" and "listening s \<noteq> []"
  shows "\<exists>s1 s2 s3. step (Accept now) s = Some s1
           \<and> step (HandlerResume (length (acts s)) now') s1 = Some s2
           \<and> w \<in> set (closed_writers s2)
           \<and> writer s2 = Some (nconns s) \<and> reader s2 = Some (nconns s) \<and> connected s2
           \<and> last_seen s2 = Some now' \<and> read_task s2 = Some (length (tasks s))
           \<and> step (TaskBegin (length (tasks s))) s2 = Some s3
           \<and> tasks s3 ! length (tasks s) = (TReadHeader (nconns s), False)
           \<and> writer s3 = Some (nconns s) \<and> connected s3 \<and> pending s3 = pending s"
proof -
  let ?s0 = "cancel_read_task (s\<lparr>nconns := Suc (nconns s)\<rparr>)"
  let ?s1 = "spawn (?s0\<lparr>closed_writers := w # closed_writers ?s0\<rparr>, HandleWait (nconns s))"
  let ?s2 = "settle (length (acts s)) (handle_connection_finish (nconns s) now' ?s1,
      Finished ReturnedNone)"
  let ?s3 = "read_loop_begin (length (tasks s)) ?s2"
  have w0: "writer ?s0 = Some w"
    using assms(1) by (simp add: cancel_read_task_fields)
  have a: "step (Accept now) s = Some ?s1"
    using assms(2) w0 by (simp add: handle_connection_def Let_def cancel_read_task_fields)
  have acts1: "acts ?s1 = acts s @ [HandleWait (nconns s)]"
    by (simp add: spawn_def)
  have b: "step (HandlerResume (length (acts s)) now') ?s1 = Some ?s2"
    by (simp add: acts1)
  have len: "length (tasks ?s1) = length (tasks s)"
    by (simp add: spawn_def cancel_read_task_fields)
  have t2: "tasks ?s2 = tasks ?s1 @ [(TCreated, False)]"
    and f2: "writer ?s2 = Some (nconns s)" "reader ?s2 = Some (nconns s)" "connected ?s2"
      "last_seen ?s2 = Some now'" "read_task ?s2 = Some (length (tasks s))"
      "w \<in> set (closed_writers ?s2)"
    by (simp_all add: settle_def handle_connection_finish_def len spawn_def
        cancel_read_task_fields)
  have c: "step (TaskBegin (length (tasks s))) ?s2 = Some ?s3"
    by (simp add: t2 len nth_append)
  have s3: "?s3 = ?s2\<lparr>tasks := (tasks ?s2)[length (tasks s) := (TReadHeader (nconns s), False)]\<rparr>"
    by (simp add: read_loop_begin_def read_loop_next_def t2 len nth_append f2(2))
  have t3: "tasks ?s3 ! length (tasks s) = (TReadHeader (nconns s), False)"
    by (simp add: s3 t2 len)
  have f3: "writer ?s3 = Some (nconns s)" "connected ?s3" "pending ?s3 = pending s"
    by (simp_all add: s3 f2) (simp add: settle_def handle_connection_finish_def spawn_def)
  from a b c f2 t3 f3 show ?thesis
    by blast
qed

text \<open>
  Claim C4, as amended. When the header a \<^verbatim>\<open>_read_loop\<close> waits for declares more than
  1000000 bytes, the loop reads nothing after the header and ends: the facade is marked
  not connected, the table is emptied, every caller whose future was unresolved gets
  \<^verbatim>\<open>ConnectionError("EA disconnected")\<close>, and nothing else changes (the server keeps
  listening, the writer stays in place and is not closed, no coroutine is disturbed).
  The next connection the server accepts closes the old writer and becomes the current
  one, the facade is connected again and a new read loop reads from the new connection.
\<close>

theorem oversized_header_ends_session:
  assumes "reachable s" and "t < length (tasks s)" and "tasks s ! t = (TReadHeader r, False)"
    and "struct_unpack_I header = Some n" and "1000000 < n" and "listening s \<noteq> []"
  shows "read_loop_frame loads (header @ rest) = TooLarge n rest
         \<and> step (TaskHeader t header) s = Some (read_loop_finally t s)
         \<and> tasks (read_loop_finally t s) ! t = (TDone, False)
         \<and> \<not> connected (read_loop_finally t s) \<and> pending (read_loop_finally t s) = []
         \<and> (\<forall>(k, f) \<in> set (pending s). futs s ! f = FPending \<longrightarrow>
               futs (read_loop_finally t s) ! f
                 = FException (ConnectionError ''EA disconnected''))
         \<and> server (read_loop_finally t s) = server s
         \<and> listening (read_loop_finally t s) = listening s
         \<and> writer (read_loop_finally t s) = writer s
         \<and> closed_writers (read_loop_finally t s) = closed_writers s
         \<and> acts (read_loop_finally t s) = acts s
         \<and> (\<exists>w s1 s2 s3. writer s = Some w
               \<and> step (Accept now) (read_loop_finally t s) = Some s1
               \<and> step (HandlerResume (length (acts s)) now') s1 = Some s2
               \<and> w \<in> set (closed_writers s2)
               \<and> writer s2 = Some (nconns s) \<and> reader s2 = Some (nconns s) \<and> connected s2
               \<and> step (TaskBegin (length (tasks s))) s2 = Some s3
               \<and> tasks s3 ! length (tasks s) = (TReadHeader (nconns s), False)
               \<and> writer s3 = Some (nconns s) \<and> connected s3 \<and> pending s3 = [])"
proof -
  let ?s' = "read_loop_finally t s"
  from assms(1) have i: "inv s"
    by (rule reachable_inv)
  have frame: "read_loop_frame loads (header @ rest) = TooLarge n rest"
    using assms(4,5) by (rule read_loop_frame_too_large)
  have len: "length header = 4"
    using assms(4) by (rule struct_unpack_length)
  have st: "step (TaskHeader t header) s = Some ?s'"
    using assms(2,3) len read_loop_header_too_large [OF assms(4,5)] by simp
  have fin: "tasks ?s' ! t = (TDone, False)"
    using assms(2) by (simp add: read_loop_finally_fields)
  have fails: "\<forall>(k, f) \<in> set (pending s). futs s ! f = FPending \<longrightarrow>
      futs ?s' ! f = FException (ConnectionError ''EA disconnected'')"
    using i by (auto intro: read_loop_finally_fails)
  from i assms(2) obtain w where w: "writer s = Some w"
    by (auto simp: inv_def)
  then have "writer ?s' = Some w" and "listening ?s' \<noteq> []"
    using assms(6) by (simp_all add: read_loop_finally_fields)
  from reconnect [OF this, of now now']
  obtain s1 s2 s3 where "step (Accept now) ?s' = Some s1"
    and "step (HandlerResume (length (acts s)) now') s1 = Some s2"
    and "w \<in> set (closed_writers s2)"
    and "writer s2 = Some (nconns s)" and "reader s2 = Some (nconns s)" and "connected s2"
    and "step (TaskBegin (length (tasks s))) s2 = Some s3"
    and "tasks s3 ! length (tasks s) = (TReadHeader (nconns s), False)"
    and "writer s3 = Some (nconns s)" and "connected s3" and "pending s3 = []"
    by (auto simp: read_loop_finally_fields)
  with w have again: "\<exists>w s1 s2 s3. writer s = Some w
      \<and> step (Accept now) ?s' = Some s1
      \<and> step (HandlerResume (length (acts s)) now') s1 = Some s2
      \<and> w \<in> set (closed_writers s2)
      \<and> writer s2 = Some (nconns s) \<and> reader s2 = Some (nconns s) \<and> connected s2
      \<and> step (TaskBegin (length (tasks s))) s2 = Some s3
      \<and> tasks s3 ! length (tasks s) = (TReadHeader (nconns s), False)
      \<and> writer s3 = Some (nconns s) \<and> connected s3 \<and> pending s3 = []"
    by blast
  from frame st fin fails again show ?thesis
    by (simp add: read_loop_finally_fields)
qed

section \<open>The table and its futures\<close>

subsection \<open>stop() runs to its end\<close>

text \<open>
  Nothing can hold \<^verbatim>\<open>stop()\<close> up: from every state that satisfies the invariant, the
  call and at most two resumptions (one for each \<^verbatim>\<open>wait_closed()\<close> it awaits), with no
  other coroutine running in between, take it to its last line, and the table is torn
  down.
\<close>

lemma cancel_read_task_more:
  "server (cancel_read_task s) = server s"
  "acts (cancel_read_task s) = acts s"
  "listening (cancel_read_task s) = listening s"
  by (simp_all add: cancel_read_task_def split: option.split)

lemma settle_finished:
  "acts s1 = as @ [a] \<Longrightarrow>
   acts (settle (length as) (stop_finish s1, Finished ReturnedNone)) ! length as
     = Finished ReturnedNone"
  by (simp add: settle_def stop_finish_def fail_pending_def)

lemma stop_completes:
  assumes "inv s"
  shows "\<exists>es s2. length es \<le> 2 \<and> set es \<subseteq> {StopResume (length (acts s))}
           \<and> run (StopCall # es) s = Some s2
           \<and> acts s2 ! length (acts s) = Finished ReturnedNone \<and> torn s s2"
proof -
  let ?c = "cancel_read_task s"
  let ?p = "length (acts s)"
  have c: "writer ?c = writer s" "server ?c = server s" "acts ?c = acts s"
    "pending ?c = pending s" "futs ?c = futs s"
    by (simp_all add: cancel_read_task_fields cancel_read_task_more)
  show ?thesis
  proof (cases "writer s")
    case None
    show ?thesis
    proof (cases "server s")
      case None
      let ?s2 = "spawn (stop s)"
      from \<open>writer s = None\<close> None c have st: "stop s = (stop_finish ?c, Finished ReturnedNone)"
        by (simp add: stop_def Let_def stop_server_def)
      have "torn s (stop_finish ?c)"
        using assms by (rule torn_stop_finish) (simp_all add: c)
      then have "torn s ?s2" by (simp add: st)
      moreover have "acts ?s2 ! ?p = Finished ReturnedNone"
        by (simp add: st spawn_def stop_finish_def fail_pending_def c)
      moreover have "run (StopCall # []) s = Some ?s2" by simp
      ultimately show ?thesis
        by (intro exI [of _ "[]"] exI [of _ ?s2]) simp
    next
      case (Some srv)
      let ?s1 = "spawn (stop s)"
      let ?s2 = "settle ?p (stop_finish ?s1, Finished ReturnedNone)"
      from \<open>writer s = None\<close> Some c
      have st: "stop s = (?c\<lparr>listening := removeAll srv (listening ?c)\<rparr>, StopWaitServer)"
        by (simp add: stop_def Let_def stop_server_def)
      have a1: "acts ?s1 = acts s @ [StopWaitServer]"
        by (simp add: st spawn_def c)
      have pf: "pending ?s1 = pending s" "futs ?s1 = futs s"
        by (simp_all add: st c)
      have "step (StopResume ?p) ?s1 = Some ?s2"
        by (simp add: a1)
      then have "run (StopCall # [StopResume ?p]) s = Some ?s2" by simp
      moreover have "torn s (stop_finish ?s1)"
        using assms pf by (rule torn_stop_finish)
      then have "torn s ?s2" by simp
      moreover have "acts ?s2 ! ?p = Finished ReturnedNone"
        by (rule settle_finished [OF a1])
      ultimately show ?thesis
        by (intro exI [of _ "[StopResume ?p]"] exI [of _ ?s2]) simp
    qed
  next
    case (Some w)
    let ?s1 = "spawn (stop s)"
    from Some c have st: "stop s = (?c\<lparr>closed_writers := w # closed_writers ?c\<rparr>, StopWaitWriter)"
      by (simp add: stop_def Let_def)
    have a1: "acts ?s1 = acts s @ [StopWaitWriter]"
      by (simp add: st spawn_def c)
    have pf1: "pending ?s1 = pending s" "futs ?s1 = futs s" "server ?s1 = server s"
      by (simp_all add: st c spawn_def)
    have s1: "step (StopResume ?p) ?s1 = Some (settle ?p (stop_server ?s1))"
      by (simp add: a1)
    show ?thesis
    proof (cases "server s")
      case None
      let ?s2 = "settle ?p (stop_server ?s1)"
      from None pf1 have ss: "stop_server ?s1 = (stop_finish ?s1, Finished ReturnedNone)"
        by (simp add: stop_server_def)
      from s1 have "run (StopCall # [StopResume ?p]) s = Some ?s2" by simp
      moreover have "torn s (stop_finish ?s1)"
        using assms pf1(1,2) by (rule torn_stop_finish)
      then have "torn s ?s2" by (simp add: ss)
      moreover have "acts ?s2 ! ?p = Finished ReturnedNone"
        by (simp add: ss settle_def stop_finish_def fail_pending_def a1)
      ultimately show ?thesis
        by (intro exI [of _ "[StopResume ?p]"] exI [of _ ?s2]) simp
    next
      case (Some srv)
      let ?s2 = "settle ?p (stop_server ?s1)"
      let ?s3 = "settle ?p (stop_finish ?s2, Finished ReturnedNone)"
      from Some pf1
      have ss: "stop_server ?s1 = (?s1\<lparr>listening := removeAll srv (listening ?s1)\<rparr>, StopWaitServer)"
        by (simp add: stop_server_def)
      have a2: "acts ?s2 = acts s @ [StopWaitServer]"
        by (simp add: ss settle_def a1)
      have pf2: "pending ?s2 = pending s" "futs ?s2 = futs s"
        using pf1 by (simp_all add: ss)
      have "step (StopResume ?p) ?s2 = Some ?s3"
        by (simp add: a2)
      with s1 have "run (StopCall # [StopResume ?p, StopResume ?p]) s = Some ?s3" by simp
      moreover have "torn s (stop_finish ?s2)"
        using assms pf2 by (rule torn_stop_finish)
      then have "torn s ?s3" by simp
      moreover have "acts ?s3 ! ?p = Finished ReturnedNone"
        by (rule settle_finished [OF a2])
      ultimately show ?thesis
        by (intro exI [of _ "[StopResume ?p, StopResume ?p]"] exI [of _ ?s3]) simp
    qed
  qed
qed

subsection \<open>Single assignment, removal and teardown\<close>

text \<open>
  Claim C1, as amended. In every step from a reachable state:
  \<^item> a future that is resolved is never assigned again (so at most one of timeout,
    response, disconnect and stop resolves it);
  \<^item> the table has one entry per id at most, and only entries whose future is
    unresolved or was cancelled by its caller's timeout: a future that a response, a
    disconnect or \<^verbatim>\<open>stop()\<close> resolves leaves the table in that same step;
  \<^item> a call that the step ends by raising an exception of class \<^verbatim>\<open>Exception\<close> has
    no entry left, also when it is the call's own handler that removed the entry and the
    future was never resolved (a failed serialization or write);
  \<^item> when the step is one in which \<^verbatim>\<open>stop()\<close> returns, or one in which a
    \<^verbatim>\<open>_read_loop\<close> that has entered its \<^verbatim>\<open>try\<close> leaves it, the table is empty after it,
    every future that was in the table is failed (it holds a \<^verbatim>\<open>ConnectionError\<close>, or
    its caller's timeout had cancelled it), and the call waiting for it runs again and
    raises;
  \<^item> \<^verbatim>\<open>stop()\<close>, called in the state before the step, runs to its end after at most two
    resumptions and leaves the table torn down in that way: no caller waits forever.
\<close>

theorem pending_resolved_once:
  assumes "reachable s" and "step e s = Some s'"
  shows "write_once (futs s) (futs s')
         \<and> distinct (map fst (pending s'))
         \<and> (\<forall>(k, f) \<in> set (pending s').
               f < length (futs s') \<and> (futs s' ! f = FPending \<or> futs s' ! f = FCancelled))
         \<and> (\<forall>p l x. p < length (acts s') \<and> acts s' ! p = Send l (Ended (Raised x))
               \<and> (p < length (acts s) \<longrightarrow> acts s ! p \<noteq> Send l (Ended (Raised x)))
               \<and> is_Exception x
               \<longrightarrow> map_of (pending s') (req_id l) = None)
         \<and> (stop_returns e s s' \<or> read_loop_leaves_try e s s' \<longrightarrow> torn_down s s')
         \<and> (\<exists>es s2. length es \<le> 2 \<and> set es \<subseteq> {StopResume (length (acts s))}
               \<and> run (StopCall # es) s = Some s2
               \<and> acts s2 ! length (acts s) = Finished ReturnedNone \<and> torn_down s s2)"
proof -
  from assms(1) have i: "inv s"
    by (rule reachable_inv)
  from assms have "reachable s'"
    by (rule reachable_step)
  then have i': "inv s'"
    by (rule reachable_inv)
  have once: "write_once (futs s) (futs s')"
    using assms(2) by (rule step_write_once)
  from i' have keys: "distinct (map fst (pending s'))"
    by (simp add: inv_def inv_core_def)
  from i' have open_only: "\<forall>(k, f) \<in> set (pending s').
      f < length (futs s') \<and> (futs s' ! f = FPending \<or> futs s' ! f = FCancelled)"
    by (simp add: inv_def inv_core_def)
  have popped: "map_of (pending s') (req_id l) = None"
    if "p < length (acts s')" and "acts s' ! p = Send l (Ended (Raised x))"
      and "p < length (acts s) \<longrightarrow> acts s ! p \<noteq> Send l (Ended (Raised x))"
      and "is_Exception x" for p l x
    using assms(2) that by (rule raised_exception_pops)
  have down: "torn_down s s'"
    if "stop_returns e s s' \<or> read_loop_leaves_try e s s'"
  proof -
    from i assms(2) that have "torn s s'"
      by (rule step_torn)
    then show ?thesis
      by (rule torn_torn_down)
  qed
  from stop_completes [OF i] obtain es s2 where "length es \<le> 2"
    and "set es \<subseteq> {StopResume (length (acts s))}" and "run (StopCall # es) s = Some s2"
    and "acts s2 ! length (acts s) = Finished ReturnedNone" and "torn s s2"
    by blast
  then have fin: "\<exists>es s2. length es \<le> 2 \<and> set es \<subseteq> {StopResume (length (acts s))}
      \<and> run (StopCall # es) s = Some s2
      \<and> acts s2 ! length (acts s) = Finished ReturnedNone \<and> torn_down s s2"
    using torn_torn_down by blast
  from popped have popped': "\<forall>p l x. p < length (acts s') \<and> acts s' ! p = Send l (Ended (Raised x))
      \<and> (p < length (acts s) \<longrightarrow> acts s ! p \<noteq> Send l (Ended (Raised x)))
      \<and> is_Exception x
      \<longrightarrow> map_of (pending s') (req_id l) = None"
    by blast
  from down have down': "stop_returns e s s' \<or> read_loop_leaves_try e s s' \<longrightarrow> torn_down s s'"
    by blast
  show ?thesis
    by (intro conjI once keys open_only popped' down' fin)
qed

section \<open>Concrete runs\<close>

lemma timed_out_step: "step (SendTimeout 1) waiting_state = Some timed_out_state"
  by (simp add: waiting_state_def timed_out_state_def tick_call_def blocks)

lemma gave_up_step: "step (SendResume 1) timed_out_state = Some gave_up_state"
  by (simp add: waiting_state_def timed_out_state_def gave_up_state_def tick_call_def blocks)

lemma overlap_run_state: "run overlap_run init = Some overlap_state"
  by (simp add: overlap_run_def overlap_state_def blocks)

text \<open>
  Claim C5 on \<open>overlap_run\<close>. Connection 0 is current; connections 1 and 2 arrive
  together. Both handlers cancel the read loop of 0, close 0 and suspend in
  \<^verbatim>\<open>wait_closed()\<close>. The handler of 1 resumes and makes 1 current; the handler of 2
  resumes and makes 2 current, without closing 1 or cancelling the read loop made for 1
  (lines 85 to 91 test nothing). The facade is connected to 2 while the writer of 1 is
  open and its loop alive. That loop then reads from \<^verbatim>\<open>self._reader\<close>, the reader of 2;
  the loop made for 2 fails on the reader already in use (\<^verbatim>\<open>RuntimeError\<close>) and its
  \<^verbatim>\<open>finally\<close> marks the facade not connected, with connection 2 current and open.
\<close>

theorem overlapping_accepts_leave_two_sessions:
  "run overlap_run init = Some overlap_state
   \<and> writer overlap_state = Some 2 \<and> connected overlap_state
   \<and> 1 \<notin> set (closed_writers overlap_state)
   \<and> tasks overlap_state ! 1 = (TCreated, False)
   \<and> run [TaskBegin 1, TaskBegin 2, TaskRaise 2 (OtherException ''RuntimeError'')]
        overlap_state
      = Some (overlap_state\<lparr>connected := False,
                tasks := [(TDone, False), (TReadHeader 2, False), (TDone, False)]\<rparr>)"
  by (simp add: overlap_run_state) (simp add: overlap_state_def blocks)

lemma disconnected_step:
  "step (TaskRaise 0 IncompleteReadError) waiting_state = Some disconnected_state"
  by (simp add: waiting_state_def disconnected_state_def blocks)

lemma two_calls_run_state: "run two_calls_run init = Some two_calls_state"
  by (simp add: two_calls_run_def two_calls_state_def tick_frame_def small_payload_def
      small_payload_y_def reply_x_body_def reply_x_def reply_y_body_def reply_y_def blocks)

lemma stopping_run: "run [StopCall, StopResume 2] waiting_state = Some stopping_state"
  by (simp add: waiting_state_def stopping_state_def tick_call_def blocks)

lemma stopped_step: "step (StopResume 2) stopping_state = Some stopped_state"
  by (simp add: waiting_state_def stopping_state_def stopped_state_def tick_call_def blocks)

text \<open>
  The hypotheses of C1 hold when the EA disconnects in \<open>waiting_state\<close>, when
  \<^verbatim>\<open>stop()\<close> returns in \<open>stopping_state\<close>, and when the timed-out call raises in
  \<open>timed_out_state\<close>.
\<close>

theorem pending_resolved_once_witness:
  "reachable waiting_state
   \<and> step (TaskRaise 0 IncompleteReadError) waiting_state = Some disconnected_state
   \<and> read_loop_leaves_try (TaskRaise 0 IncompleteReadError) waiting_state disconnected_state
   \<and> torn_down waiting_state disconnected_state
   \<and> futs disconnected_state ! 0 = FException (ConnectionError ''EA disconnected'')
   \<and> reachable stopping_state
   \<and> step (StopResume 2) stopping_state = Some stopped_state
   \<and> stop_returns (StopResume 2) stopping_state stopped_state
   \<and> torn_down stopping_state stopped_state
   \<and> futs stopped_state ! 0 = FException (ConnectionError ''Bridge shutting down'')
   \<and> reachable timed_out_state
   \<and> step (SendResume 1) timed_out_state = Some gave_up_state
   \<and> acts gave_up_state ! 1
       = Send tick_call (Ended (Raised (TimeoutError ''tick'' (PyFloat 10 0))))
   \<and> acts timed_out_state ! 1
       \<noteq> Send tick_call (Ended (Raised (TimeoutError ''tick'' (PyFloat 10 0))))
   \<and> is_Exception (TimeoutError ''tick'' (PyFloat 10 0))
   \<and> map_of (pending gave_up_state) (req_id tick_call) = None"
proof -
  have e: "read_loop_leaves_try (TaskRaise 0 IncompleteReadError) waiting_state disconnected_state"
    by (simp add: read_loop_leaves_try_def)
  from pending_resolved_once [OF waiting_reachable disconnected_step] e
  have d: "torn_down waiting_state disconnected_state"
    by blast
  have r: "reachable stopping_state"
    using waiting_reachable stopping_run by (rule run_reachable)
  have t: "stop_returns (StopResume 2) stopping_state stopped_state"
    by (simp add: stop_returns_def stopped_state_def)
  from pending_resolved_once [OF r stopped_step] t
  have u: "torn_down stopping_state stopped_state"
    by blast
  have f: "futs disconnected_state ! 0 = FException (ConnectionError ''EA disconnected'')"
    "futs stopped_state ! 0 = FException (ConnectionError ''Bridge shutting down'')"
    by (simp_all add: disconnected_state_def stopped_state_def)
  have q: "reachable timed_out_state"
    using waiting_reachable timed_out_step by (rule reachable_step)
  have p: "1 < length (acts gave_up_state)"
    and a: "acts gave_up_state ! 1
      = Send tick_call (Ended (Raised (TimeoutError ''tick'' (PyFloat 10 0))))"
    by (simp_all add: gave_up_state_def)
  have b: "acts timed_out_state ! 1
      \<noteq> Send tick_call (Ended (Raised (TimeoutError ''tick'' (PyFloat 10 0))))"
    by (simp add: timed_out_state_def)
  have x: "is_Exception (TimeoutError ''tick'' (PyFloat 10 0))"
    by simp
  from pending_resolved_once [OF q gave_up_step] p a b x
  have g: "map_of (pending gave_up_state) (req_id tick_call) = None"
    by blast
  from waiting_reachable disconnected_step e d f r stopped_step t u q gave_up_step a b x g
  show ?thesis
    by (intro conjI)
qed

text \<open>
  Claim C1 as stated fails: not every request registered in the table is resolved by
  a timeout, a response, a disconnect or \<^verbatim>\<open>stop()\<close>. When \<^verbatim>\<open>drain()\<close> raises, the
  handler of lines 166 to 168 removes the entry and the caller gets that exception; the
  future is left unresolved, and a later disconnect and \<^verbatim>\<open>stop()\<close> do not touch it
  either.
\<close>

theorem write_failure_counterexample:
  "run write_failed_run init = Some write_failed_state
   \<and> acts write_failed_state ! 1
       = Send tick_call (Ended (Raised (OtherException ''ConnectionResetError'')))
   \<and> pending write_failed_state = []
   \<and> futs write_failed_state ! fut_of tick_call = FPending
   \<and> map_option (\<lambda>s. futs s ! fut_of tick_call)
       (run [TaskRaise 0 IncompleteReadError, StopCall, StopResume 2, StopResume 2]
          write_failed_state) = Some FPending"
  by (simp add: write_failed_run_def write_failed_state_def waiting_state_def tick_call_def
      tick_frame_def small_payload_def blocks)

text \<open>
  A read Task that ends without \<^verbatim>\<open>_read_loop\<close> having run: cancelled before its first
  run, it ends in its first step, the \<^verbatim>\<open>finally\<close> block does not run, and the table,
  the future and the \<^verbatim>\<open>_connected\<close> flag stay as they were. C1 as amended says nothing
  about this end of a Task.
\<close>

theorem read_task_cancelled_before_first_run:
  "run cancelled_task_run init = Some cancelled_task_state
   \<and> read_task_never_ran (TaskBegin 0) cancelled_task_state
   \<and> step (TaskBegin 0) cancelled_task_state
       = Some (cancelled_task_state\<lparr>tasks := [(TDone, False)]\<rparr>)
   \<and> pending cancelled_task_state = [(''x'', 0)]
   \<and> futs cancelled_task_state ! 0 = FPending
   \<and> connected cancelled_task_state"
  by (simp add: cancelled_task_run_def cancelled_task_state_def waiting_state_def tick_call_def
      tick_frame_def small_payload_def read_task_never_ran_def blocks)

text \<open>The hypotheses of C2 hold in \<open>two_calls_run\<close>, where the second call is answered first.\<close>

theorem responses_matched_by_id_witness:
  "run two_calls_run init = Some two_calls_state \<and> distinct (uuids two_calls_run)
   \<and> distinct (call_ids (acts two_calls_state))
   \<and> acts two_calls_state ! 1
       = Send (Locals ''x'' 0 ''tick'' (PyFloat 10 0)) (Ended (Returned reply_x))
   \<and> msg_id reply_x = JStr ''x''"
proof -
  have d: "distinct (uuids two_calls_run)"
    by (simp add: two_calls_run_def)
  have a: "acts two_calls_state ! 1
      = Send (Locals ''x'' 0 ''tick'' (PyFloat 10 0)) (Ended (Returned reply_x))"
    by (simp add: two_calls_state_def)
  have p: "1 < length (acts two_calls_state)"
    by (simp add: two_calls_state_def)
  from responses_matched_by_id [OF two_calls_run_state d] p a
  have "distinct (call_ids (acts two_calls_state)) \<and> msg_id reply_x = JStr ''x''"
    by fastforce
  with two_calls_run_state d a show ?thesis
    by blast
qed

text \<open>The hypotheses of C3 hold for the call waiting in \<open>waiting_state\<close>.\<close>

theorem timeout_removes_entry_witness:
  "reachable waiting_state \<and> acts waiting_state ! 1 = Send tick_call AtWait
   \<and> futs waiting_state ! fut_of tick_call = FPending
   \<and> step (SendTimeout 1) waiting_state = Some timed_out_state
   \<and> (\<exists>s2. step (SendResume 1) timed_out_state = Some s2
         \<and> acts s2 ! 1 = Send tick_call (Ended (Raised (TimeoutError ''tick'' (PyFloat 10 0))))
         \<and> map_of (pending s2) ''x'' = None \<and> futs s2 = futs timed_out_state)"
proof -
  have p: "1 < length (acts waiting_state)"
    and a: "acts waiting_state ! 1 = Send tick_call AtWait"
    and f: "futs waiting_state ! fut_of tick_call = FPending"
    by (simp_all add: waiting_state_def tick_call_def)
  have t: "1 < length (acts timed_out_state) \<and> acts timed_out_state ! 1 = Send tick_call TimedOut"
    by (simp add: timed_out_state_def)
  note wake = timeout_removes_entry [OF waiting_reachable p a f, THEN conjunct2,
      THEN conjunct1, rule_format, OF t]
  have l: "command_of tick_call = ''tick''" "timeout_of tick_call = PyFloat 10 0"
    "req_id tick_call = ''x''"
    by (simp_all add: tick_call_def)
  from wake obtain s2 where "step (SendResume 1) timed_out_state = Some s2"
    and "acts s2 ! 1 = Send tick_call (Ended (Raised (TimeoutError ''tick'' (PyFloat 10 0))))"
    and "map_of (pending s2) ''x'' = None" and "futs s2 = futs timed_out_state"
    unfolding l by blast
  with waiting_reachable a f timed_out_step show ?thesis
    by blast
qed

text \<open>The hypotheses of C4 hold in \<open>waiting_state\<close> for \<open>oversized_header\<close>.\<close>

theorem oversized_header_ends_session_witness:
  "reachable waiting_state \<and> tasks waiting_state ! 0 = (TReadHeader 0, False)
   \<and> struct_unpack_I oversized_header = Some 1000001
   \<and> step (TaskHeader 0 oversized_header) waiting_state
       = Some (read_loop_finally 0 waiting_state)
   \<and> futs (read_loop_finally 0 waiting_state) ! 0
       = FException (ConnectionError ''EA disconnected'')
   \<and> closed_writers (read_loop_finally 0 waiting_state) = []"
proof -
  have t: "0 < length (tasks waiting_state)"
    and h: "tasks waiting_state ! 0 = (TReadHeader 0, False)"
    and l: "listening waiting_state \<noteq> []"
    by (simp_all add: waiting_state_def)
  have u: "struct_unpack_I oversized_header = Some 1000001"
    by (simp add: oversized_header_def struct_unpack_I_def)
  have n: "(1000000::nat) < 1000001"
    by simp
  have x: "(''x'', 0) \<in> set (pending waiting_state)" and y: "futs waiting_state ! 0 = FPending"
    and cw: "closed_writers waiting_state = []"
    by (simp_all add: waiting_state_def)
  from oversized_header_ends_session [OF waiting_reachable t h u n l] x y cw
  have "step (TaskHeader 0 oversized_header) waiting_state
        = Some (read_loop_finally 0 waiting_state)
      \<and> futs (read_loop_finally 0 waiting_state) ! 0
        = FException (ConnectionError ''EA disconnected'')
      \<and> closed_writers (read_loop_finally 0 waiting_state) = []"
    by fastforce
  with waiting_reachable h u show ?thesis
    by blast
qed

text \<open>
  Claim C4 as stated fails: after the oversized header the waiting caller receives
  \<^verbatim>\<open>ConnectionError("EA disconnected")\<close>, exactly what it receives when the EA
  disconnects, not a protocol error of its own; and the Session's writer is not
  closed.
\<close>

theorem oversized_header_counterexample:
  "run [TaskHeader 0 oversized_header, SendResume 1] waiting_state
     = Some (disconnected_state\<lparr>acts := [Finished ReturnedNone,
          Send tick_call (Ended (Raised (ConnectionError ''EA disconnected'')))]\<rparr>)
   \<and> run [TaskRaise 0 IncompleteReadError, SendResume 1] waiting_state
     = run [TaskHeader 0 oversized_header, SendResume 1] waiting_state
   \<and> closed_writers disconnected_state = []"
  by (simp add: waiting_state_def disconnected_state_def oversized_header_def tick_call_def
      blocks)

text \<open>
  Claim C10 at the failing input: the caller's own Task is cancelled while the call
  waits in \<^verbatim>\<open>wait_for\<close>. \<^verbatim>\<open>send_command\<close> raises \<^verbatim>\<open>CancelledError\<close>, which is not of
  class \<^verbatim>\<open>Exception\<close>: it passes both handlers (lines 163 to 168), neither
  \<^verbatim>\<open>pop\<close> runs, and the table still holds the call's id, with a cancelled future, when
  the exception reaches the caller. On every other path a handler removes the entry
  (\<open>raised_exception_pops\<close>), and \<^verbatim>\<open>_read_loop\<close> does its own cleanup in a
  \<^verbatim>\<open>finally\<close> block, which runs on cancellation too.
\<close>

theorem send_command_cancelled_keeps_entry:
  "step (SendCancel 1) waiting_state = Some cancelled_state
   \<and> acts cancelled_state ! 1 = Send tick_call (Ended (Raised CancelledError))
   \<and> \<not> is_Exception CancelledError
   \<and> futs cancelled_state ! 0 = FCancelled
   \<and> map_of (pending cancelled_state) (req_id tick_call) = Some 0"
  by (simp add: waiting_state_def cancelled_state_def tick_call_def blocks)

end
